theory Spec2Isabelle
  imports Main
begin

section \<open>The legacy symbol alias layer \<^verbatim>\<open>esphome/prototypes/ArduinoJson.h\<close>\<close>

text \<open>
  The repository consists of one C++ header of eleven lines: an include guard
  (\<^verbatim>\<open>#pragma once\<close>), one include of the JSON library's header, a comment and six
  using-declarations. The header has no function to execute: what it does, it does
  while a translation unit that includes it is compiled. The embedding therefore has
  two parts:
  \<^item> the header itself, line by line, as a value of a small datatype of header lines
    (\<open>ArduinoJson_h\<close> below);
  \<^item> the translation phases that give such lines their meaning: inclusion of files
    with \<^verbatim>\<open>#pragma once\<close> and a nesting limit, macro definitions, namespaces (plain
    and inline, also around an \<^verbatim>\<open>#include\<close>), class definitions, typedef names,
    variables, using-declarations, and the lookup of qualified and unqualified names
    with the hiding of a class name by a variable. They act on an explicit record of
    the state of the translation unit and return a diagnostic or the new state.

  The library header \<^verbatim>\<open>ArduinoJson.hpp\<close> is not part of the repository. It enters every
  statement as a parameter: the file system \<open>fs\<close> that maps header names to their
  lines is arbitrary.

  What the model leaves out:
  \<^item> macros are object-like and are recorded by name. The replacement of a macro is
    not followed: a declaration one of whose identifiers is the name of a macro ends
    the run with \<open>Replaced\<close>, which is not a diagnostic of a compiler but the mark of
    a translation unit that the model does not describe (a function-like macro
    replaces no identifier of lines 6 to 11, where none is followed by a
    parenthesis, and is not represented);
  \<^item> using-directives, functions and their overloading, templates, enumerations and
    class members are absent; a variable stands for every entity that is not a type
    or a namespace;
  \<^item> a diagnostic says which name was not found, was ambiguous or clashed, not how a
    compiler words it;
  \<^item> the object file is represented by the list of the definitions that put data or
    code into it. What a compiler generates for each is not described.
\<close>

subsection \<open>Names, types and the state of a translation unit\<close>

type_synonym ident = string

text \<open>A namespace is named by its path from the global namespace, which is \<open>[]\<close>.\<close>

type_synonym nspath = "ident list"

type_synonym qname = "nspath \<times> ident"

text \<open>
  A class type is identified by the namespace and the name of its definition; its size,
  alignment and members are those that the definition gives it.
\<close>

record ctype =
  defined_in :: nspath
  class_name :: ident
  size_of :: nat
  align_of :: nat
  members :: "ident list"

text \<open>
  A name can denote a type as the name of a class or as a typedef name. The difference
  matters where a variable of the same name is declared in the same namespace: it
  hides a class name and clashes with a typedef name.
\<close>

datatype tkind = ClassName | TypedefName

text \<open>The lines of a header.\<close>

datatype item =
    PragmaOnce
  | Include string
  | Define ident
  | Ifndef ident "item list"
  | Comment string
  | Blank
  | ClassDef ident nat nat "ident list"
  | AliasDef ident nspath ident
  | UsingDecl nspath ident
  | ObjDef ident
  | Namespace bool ident "item list"

text \<open>
  \<^item> \<open>ClassDef n sz al ms\<close>: the definition of a class \<open>n\<close> of size \<open>sz\<close>, alignment \<open>al\<close> and
    members \<open>ms\<close> in the enclosing namespace;
  \<^item> \<open>AliasDef n q m\<close>: \<^verbatim>\<open>typedef q::m n;\<close> (\<^verbatim>\<open>typedef m n;\<close> when \<open>q\<close> is empty);
  \<^item> \<open>UsingDecl q n\<close>: \<^verbatim>\<open>using q::n;\<close> (\<^verbatim>\<open>using ::n;\<close> when \<open>q\<close> is empty);
  \<^item> \<open>ObjDef n\<close>: the definition of a variable \<open>n\<close>, which puts data into the object
    file;
  \<^item> \<open>Namespace inl n body\<close>: \<^verbatim>\<open>namespace n { body }\<close>, or \<^verbatim>\<open>inline namespace n { body }\<close>
    when \<open>inl\<close> holds. The body may contain every kind of line, an \<^verbatim>\<open>#include\<close> too.
\<close>

datatype diag =
    FileNotFound string
  | IncludeDepth string
  | Undeclared nspath ident
  | Ambiguous nspath ident
  | NotANamespace nspath ident
  | NamesNamespace nspath ident
  | Conflict nspath ident
  | Replaced ident

record tu =
  once :: "string set"
  macros :: "ident set"
  spaces :: "nspath list"
  inlines :: "nspath set"
  types :: "qname \<rightharpoonup> tkind \<times> ctype"
  vars :: "qname \<rightharpoonup> qname"
  objects :: "qname list"

text \<open>
  \<^item> \<open>once\<close>: the files that have announced \<^verbatim>\<open>#pragma once\<close>;
  \<^item> \<open>macros\<close>: the macro names defined so far;
  \<^item> \<open>spaces\<close>: the namespaces opened so far (the global namespace is not listed), and
    \<open>inlines\<close>: those of them that are inline;
  \<^item> \<open>types\<close>: the type that a name declared in a namespace denotes there;
  \<^item> \<open>vars\<close>: the variable that a name declared in a namespace denotes there, given
    by the place of its definition;
  \<^item> \<open>objects\<close>: the definitions that contribute to the object file, in order.

  A name may have an entry in \<open>types\<close> and one in \<open>vars\<close> for the same namespace: a
  class and a variable of the same name.
\<close>

definition empty_tu :: tu where
  "empty_tu = \<lparr>once = {}, macros = {}, spaces = [], inlines = {}, types = Map.empty,
               vars = Map.empty, objects = []\<rparr>"

type_synonym filesystem = "string \<rightharpoonup> item list"

subsection \<open>Name lookup\<close>

text \<open>
  The members of an inline namespace are members of the enclosing namespace as well.
  \<open>inline_set s r\<close> lists \<open>r\<close> and the namespaces that lie in \<open>r\<close> through inline
  namespaces only: the namespaces in which a member of \<open>r\<close> may be declared.
\<close>

primrec inline_chain :: "nspath set \<Rightarrow> nspath \<Rightarrow> ident list \<Rightarrow> bool" where
  "inline_chain inl r [] = True"
| "inline_chain inl r (v # vs) = (r @ [v] \<in> inl \<and> inline_chain inl (r @ [v]) vs)"

definition in_inline_set :: "tu \<Rightarrow> nspath \<Rightarrow> nspath \<Rightarrow> bool" where
  "in_inline_set s r q \<longleftrightarrow>
     take (length r) q = r \<and> inline_chain (inlines s) r (drop (length r) q)"

definition inline_set :: "tu \<Rightarrow> nspath \<Rightarrow> nspath list" where
  "inline_set s r = r # filter (\<lambda>q. q \<noteq> r \<and> in_inline_set s r q) (spaces s)"

text \<open>What the name \<open>n\<close> is declared as in the namespace \<open>r\<close>: types, variables, namespaces.\<close>

definition found_types :: "tu \<Rightarrow> nspath \<Rightarrow> ident \<Rightarrow> (tkind \<times> ctype) list" where
  "found_types s r n = List.map_filter (\<lambda>q. types s (q, n)) (inline_set s r)"

definition found_vars :: "tu \<Rightarrow> nspath \<Rightarrow> ident \<Rightarrow> qname list" where
  "found_vars s r n = remdups (List.map_filter (\<lambda>q. vars s (q, n)) (inline_set s r))"

definition found_spaces :: "tu \<Rightarrow> nspath \<Rightarrow> ident \<Rightarrow> nspath list" where
  "found_spaces s r n =
     filter (\<lambda>p. p \<in> set (spaces s)) (map (\<lambda>q. q @ [n]) (inline_set s r))"

text \<open>
  Several declarations of a type name are one type when they all denote the same
  type; otherwise the name is ambiguous.
\<close>

definition unique_type :: "(tkind \<times> ctype) list \<Rightarrow> (tkind \<times> ctype) option" where
  "unique_type ts =
     (case ts of
        [] \<Rightarrow> None
      | b # rest \<Rightarrow> if list_all (\<lambda>x. snd x = snd b) rest then Some b else None)"

text \<open>
  The type that the name \<open>n\<close>, looked up in the namespace \<open>r\<close>, denotes: none when a
  variable or a namespace of that name is found (a variable hides the class name), or
  when different types are found.
\<close>

definition member_type :: "tu \<Rightarrow> nspath \<Rightarrow> ident \<Rightarrow> ctype option" where
  "member_type s r n =
     (if found_vars s r n \<noteq> [] \<or> found_spaces s r n \<noteq> [] then None
      else map_option snd (unique_type (found_types s r n)))"

text \<open>
  The namespaces that enclose \<open>cur\<close>, innermost first, ending with the global namespace.
\<close>

primrec scopes_in :: "nspath \<Rightarrow> nspath list" where
  "scopes_in [] = [[]]"
| "scopes_in (a # p) = [] # map ((#) a) (scopes_in p)"

definition enclosing :: "nspath \<Rightarrow> nspath list" where
  "enclosing cur = rev (scopes_in cur)"

text \<open>
  The lookup of a name in front of \<^verbatim>\<open>::\<close> considers namespaces and types only. \<open>enter s r a\<close>
  is the namespace that \<open>a\<close> names as a member of \<open>r\<close>; \<open>resolve s cur q\<close> is the namespace
  that the path \<open>q\<close> names when it is written in the namespace \<open>cur\<close>: its first component
  is looked up in \<open>cur\<close> and then outwards, the others as members. The empty path names
  the global namespace.
\<close>

definition enter :: "tu \<Rightarrow> nspath \<Rightarrow> ident \<Rightarrow> diag + nspath" where
  "enter s r a =
     (if found_types s r a \<noteq> [] then Inl (NotANamespace r a)
      else (case found_spaces s r a of
              [] \<Rightarrow> Inl (Undeclared r a)
            | [p] \<Rightarrow> Inr p
            | p # p' # ps \<Rightarrow> Inl (Ambiguous r a)))"

primrec descend :: "tu \<Rightarrow> nspath \<Rightarrow> ident list \<Rightarrow> diag + nspath" where
  "descend s r [] = Inr r"
| "descend s r (a # as) =
     (case enter s r a of
        Inl e \<Rightarrow> Inl e
      | Inr p \<Rightarrow> descend s p as)"

definition resolve :: "tu \<Rightarrow> nspath \<Rightarrow> nspath \<Rightarrow> diag + nspath" where
  "resolve s cur q =
     (case q of
        [] \<Rightarrow> Inr []
      | a # as \<Rightarrow>
          (case find (\<lambda>c. found_types s c a \<noteq> [] \<or> found_spaces s c a \<noteq> []) (enclosing cur) of
             None \<Rightarrow> Inl (Undeclared cur a)
           | Some c \<Rightarrow>
               (case enter s c a of
                  Inl e \<Rightarrow> Inl e
                | Inr p \<Rightarrow> descend s p as)))"

text \<open>
  \<open>type_named s cur q n\<close>: the type that \<^verbatim>\<open>q::n\<close> denotes when it is written in the namespace
  \<open>cur\<close>, if it denotes a type. With the empty path it is the unqualified name \<open>n\<close>, which
  is looked up in \<open>cur\<close> and then outwards; the innermost namespace that declares \<open>n\<close> in
  any way decides.
\<close>

definition type_named :: "tu \<Rightarrow> nspath \<Rightarrow> nspath \<Rightarrow> ident \<Rightarrow> ctype option" where
  "type_named s cur q n =
     (case q of
        [] \<Rightarrow>
          (case find (\<lambda>c. found_types s c n \<noteq> [] \<or> found_vars s c n \<noteq> [] \<or>
                           found_spaces s c n \<noteq> []) (enclosing cur) of
             None \<Rightarrow> None
           | Some c \<Rightarrow> member_type s c n)
      | a # as \<Rightarrow>
          (case resolve s cur q of
             Inl e \<Rightarrow> None
           | Inr r \<Rightarrow> member_type s r n))"

subsection \<open>Declarations\<close>

text \<open>
  \<open>find_target s cur q n\<close> is what the using-declaration \<^verbatim>\<open>using q::n;\<close> written in \<open>cur\<close>
  names: the type and the variable that \<open>n\<close> denotes as a member of the namespace \<open>q\<close>.
  It fails when the namespace or the member is not found, when the member is a
  namespace, and when different types or different variables are found.
\<close>

definition find_target ::
  "tu \<Rightarrow> nspath \<Rightarrow> nspath \<Rightarrow> ident \<Rightarrow> diag + ((tkind \<times> ctype) option \<times> qname option)" where
  "find_target s cur q n =
     (case resolve s cur q of
        Inl e \<Rightarrow> Inl e
      | Inr r \<Rightarrow>
          if found_spaces s r n \<noteq> [] then Inl (NamesNamespace r n)
          else if found_types s r n = [] \<and> found_vars s r n = [] then Inl (Undeclared r n)
          else if (found_types s r n \<noteq> [] \<and> unique_type (found_types s r n) = None) \<or>
                  1 < length (found_vars s r n)
               then Inl (Ambiguous r n)
          else Inr (unique_type (found_types s r n),
                    case found_vars s r n of [] \<Rightarrow> None | v # vs \<Rightarrow> Some v))"

text \<open>
  \<open>merge s cur n (tb, vb)\<close> is what the name \<open>n\<close> denotes in \<open>cur\<close> once a declaration has
  added the type \<open>tb\<close> and the variable \<open>vb\<close> to what is declared there. A declaration of
  what the name already denotes is accepted and changes nothing. It is a conflicting
  declaration when the name is a namespace of \<open>cur\<close>, when it denotes another type or
  another variable there, and when it would be a typedef name and a variable at once.
\<close>

definition merge ::
  "tu \<Rightarrow> nspath \<Rightarrow> ident \<Rightarrow> (tkind \<times> ctype) option \<times> qname option \<Rightarrow>
     diag + ((tkind \<times> ctype) option \<times> qname option)" where
  "merge s cur n new =
     (let tb = (case fst new of
                  None \<Rightarrow> Some (types s (cur, n))
                | Some b \<Rightarrow>
                    (case types s (cur, n) of
                       None \<Rightarrow> Some (Some b)
                     | Some b' \<Rightarrow> if snd b' = snd b then Some (Some b') else None));
          vb = (case snd new of
                  None \<Rightarrow> Some (vars s (cur, n))
                | Some v \<Rightarrow>
                    (case vars s (cur, n) of
                       None \<Rightarrow> Some (Some v)
                     | Some v' \<Rightarrow> if v' = v then Some (Some v') else None))
      in if cur @ [n] \<in> set (spaces s) then Inl (Conflict cur n)
         else (case (tb, vb) of
                 (Some t, Some v) \<Rightarrow>
                   if (case t of Some (TypedefName, c) \<Rightarrow> v \<noteq> None | _ \<Rightarrow> False)
                   then Inl (Conflict cur n) else Inr (t, v)
               | _ \<Rightarrow> Inl (Conflict cur n)))"

definition set_name :: "tu \<Rightarrow> nspath \<Rightarrow> ident \<Rightarrow> (tkind \<times> ctype) option \<times> qname option \<Rightarrow> tu" where
  "set_name s cur n b =
     s\<lparr>types := (types s)((cur, n) := fst b), vars := (vars s)((cur, n) := snd b)\<rparr>"

text \<open>
  The effect of \<^verbatim>\<open>using q::n;\<close> in \<open>cur\<close>: the diagnostic, or what \<open>n\<close> denotes in \<open>cur\<close>
  afterwards.
\<close>

definition using_effect ::
  "tu \<Rightarrow> nspath \<Rightarrow> nspath \<Rightarrow> ident \<Rightarrow> diag + ((tkind \<times> ctype) option \<times> qname option)" where
  "using_effect s cur q n =
     (case find_target s cur q n of
        Inl e \<Rightarrow> Inl e
      | Inr new \<Rightarrow> merge s cur n new)"

text \<open>The identifiers of a line that the preprocessor would replace if they named a macro.\<close>

fun item_tokens :: "item \<Rightarrow> ident list" where
  "item_tokens (ClassDef n sz al ms) = [n]"
| "item_tokens (AliasDef n q m) = ''typedef'' # q @ [m, n]"
| "item_tokens (UsingDecl q n) = ''using'' # q @ [n]"
| "item_tokens (ObjDef n) = [n]"
| "item_tokens (Namespace inl n body) = (if inl then [''inline''] else []) @ [''namespace'', n]"
| "item_tokens x = []"

subsection \<open>Header lines and inclusion\<close>

text \<open>
  \<open>include_file fs k cur g\<close> is \<^verbatim>\<open>#include <g>\<close> written in the namespace \<open>cur\<close> with \<open>k\<close>
  levels of nesting left. The nesting limit is tested first, then the file is
  searched; a file that has announced \<^verbatim>\<open>#pragma once\<close> is skipped; otherwise its lines
  are processed in order, one level deeper and in the same namespace: inclusion is
  textual. \<open>process_items fs k cur f\<close> runs over lines of the file \<open>f\<close>.
\<close>

function include_file :: "filesystem \<Rightarrow> nat \<Rightarrow> nspath \<Rightarrow> string \<Rightarrow> tu \<Rightarrow> diag + tu"
  and elaborate :: "filesystem \<Rightarrow> nat \<Rightarrow> nspath \<Rightarrow> string \<Rightarrow> item \<Rightarrow> tu \<Rightarrow> diag + tu"
  and process_item :: "filesystem \<Rightarrow> nat \<Rightarrow> nspath \<Rightarrow> string \<Rightarrow> item \<Rightarrow> tu \<Rightarrow> diag + tu"
  and process_items :: "filesystem \<Rightarrow> nat \<Rightarrow> nspath \<Rightarrow> string \<Rightarrow> item list \<Rightarrow> tu \<Rightarrow> diag + tu" where
  "include_file fs k cur g s =
     (case k of
        0 \<Rightarrow> Inl (IncludeDepth g)
      | Suc k' \<Rightarrow>
          (case fs g of
             None \<Rightarrow> Inl (FileNotFound g)
           | Some body \<Rightarrow>
               if g \<in> once s then Inr s else process_items fs k' cur g body s))"
| "elaborate fs k cur f PragmaOnce s = Inr (s\<lparr>once := insert f (once s)\<rparr>)"
| "elaborate fs k cur f (Include g) s = include_file fs k cur g s"
| "elaborate fs k cur f (Define m) s = Inr (s\<lparr>macros := insert m (macros s)\<rparr>)"
| "elaborate fs k cur f (Ifndef m body) s =
     (if m \<in> macros s then Inr s else process_items fs k cur f body s)"
| "elaborate fs k cur f (Comment c) s = Inr s"
| "elaborate fs k cur f Blank s = Inr s"
| "elaborate fs k cur f (ClassDef n sz al ms) s =
     (if types s (cur, n) \<noteq> None \<or> cur @ [n] \<in> set (spaces s) then Inl (Conflict cur n)
      else Inr (s\<lparr>types := (types s)((cur, n) \<mapsto>
                  (ClassName, \<lparr>defined_in = cur, class_name = n, size_of = sz,
                                align_of = al, members = ms\<rparr>))\<rparr>))"
| "elaborate fs k cur f (AliasDef n q m) s =
     (case type_named s cur q m of
        None \<Rightarrow> Inl (Undeclared q m)
      | Some t \<Rightarrow>
          (case merge s cur n (Some (TypedefName, t), None) of
             Inl e \<Rightarrow> Inl e
           | Inr b \<Rightarrow> Inr (set_name s cur n b)))"
| "elaborate fs k cur f (UsingDecl q n) s =
     (case using_effect s cur q n of
        Inl e \<Rightarrow> Inl e
      | Inr b \<Rightarrow> Inr (set_name s cur n b))"
| "elaborate fs k cur f (ObjDef n) s =
     (if vars s (cur, n) \<noteq> None \<or> cur @ [n] \<in> set (spaces s) \<or>
         (case types s (cur, n) of Some (TypedefName, c) \<Rightarrow> True | _ \<Rightarrow> False)
      then Inl (Conflict cur n)
      else Inr (s\<lparr>vars := (vars s)((cur, n) \<mapsto> (cur, n)),
                  objects := objects s @ [(cur, n)]\<rparr>))"
| "elaborate fs k cur f (Namespace inl n body) s =
     (if types s (cur, n) \<noteq> None \<or> vars s (cur, n) \<noteq> None then Inl (Conflict cur n)
      else if cur @ [n] \<in> set (spaces s)
      then (if inl \<and> cur @ [n] \<notin> inlines s then Inl (Conflict cur n)
            else process_items fs k (cur @ [n]) f body s)
      else process_items fs k (cur @ [n]) f body
             (s\<lparr>spaces := spaces s @ [cur @ [n]],
                inlines := (if inl then insert (cur @ [n]) (inlines s) else inlines s)\<rparr>))"
| "process_item fs k cur f x s =
     (case find (\<lambda>t. t \<in> macros s) (item_tokens x) of
        Some t \<Rightarrow> Inl (Replaced t)
      | None \<Rightarrow> elaborate fs k cur f x s)"
| "process_items fs k cur f [] s = Inr s"
| "process_items fs k cur f (x # xs) s =
     (case process_item fs k cur f x s of
        Inl e \<Rightarrow> Inl e
      | Inr s' \<Rightarrow> process_items fs k cur f xs s')"
  by pat_completeness auto

text \<open>
  Every call either uses up a level of nesting or descends into the lines it was
  given, so processing ends on every file system, also on one whose headers include
  each other without a guard: the nesting limit turns the loop into a diagnostic.
\<close>

termination
  by (relation "measures
        [\<lambda>x. case x of
                Inl (Inl (fs, k, cur, g, s)) \<Rightarrow> k
              | Inl (Inr (fs, k, cur, f, x, s)) \<Rightarrow> k
              | Inr (Inl (fs, k, cur, f, x, s)) \<Rightarrow> k
              | Inr (Inr (fs, k, cur, f, xs, s)) \<Rightarrow> k,
         \<lambda>x. case x of
                Inl (Inl (fs, k, cur, g, s)) \<Rightarrow> 0
              | Inl (Inr (fs, k, cur, f, x, s)) \<Rightarrow> Suc (2 * size x)
              | Inr (Inl (fs, k, cur, f, x, s)) \<Rightarrow> Suc (Suc (2 * size x))
              | Inr (Inr (fs, k, cur, f, xs, s)) \<Rightarrow> Suc (2 * size_list size xs)]")
    auto

subsection \<open>The header\<close>

text \<open>
  The eleven lines of \<^verbatim>\<open>esphome/prototypes/ArduinoJson.h\<close>, in order:
  \<^verbatim>\<open>
   1  #pragma once
   2
   3  #include <ArduinoJson.hpp>
   4
   5  // Restore legacy ArduinoJson v6 symbols expected by ESPHome components
   6  using ArduinoJson::JsonArray;
   7  using ArduinoJson::JsonDocument;
   8  using ArduinoJson::JsonObject;
   9  using ArduinoJson::JsonVariant;
  10  using ArduinoJson::DeserializationError;
  11  using ArduinoJson::DynamicJsonDocument;
  \<close>
\<close>

definition ArduinoJson_h :: "item list" where
  "ArduinoJson_h =
     [PragmaOnce,
      Blank,
      Include ''ArduinoJson.hpp'',
      Blank,
      Comment ''Restore legacy ArduinoJson v6 symbols expected by ESPHome components'',
      UsingDecl [''ArduinoJson''] ''JsonArray'',
      UsingDecl [''ArduinoJson''] ''JsonDocument'',
      UsingDecl [''ArduinoJson''] ''JsonObject'',
      UsingDecl [''ArduinoJson''] ''JsonVariant'',
      UsingDecl [''ArduinoJson''] ''DeserializationError'',
      UsingDecl [''ArduinoJson''] ''DynamicJsonDocument'']"

text \<open>The six legacy names, in the order of lines 6 to 11.\<close>

definition legacy_names :: "ident list" where
  "legacy_names =
     [''JsonArray'', ''JsonDocument'', ''JsonObject'', ''JsonVariant'',
      ''DeserializationError'', ''DynamicJsonDocument'']"

text \<open>
  The state after line 3: the header has announced \<^verbatim>\<open>#pragma once\<close> and the library
  header has been included. \<open>k\<close> is the nesting left for the lines of the header, \<open>cur\<close>
  the namespace in which the \<^verbatim>\<open>#include\<close> of the header stands, \<open>f\<close> the name under which
  the header was found.
\<close>

definition after_line3 :: "filesystem \<Rightarrow> nat \<Rightarrow> nspath \<Rightarrow> string \<Rightarrow> tu \<Rightarrow> diag + tu" where
  "after_line3 fs k cur f s = process_items fs k cur f (take 3 ArduinoJson_h) s"

subsection \<open>What a header's text contains\<close>

text \<open>
  The files a header includes, the macros it defines and its using-declarations, each
  with the namespace it stands in relative to the header, read off the lines (also
  those inside a conditional group and inside namespaces).
\<close>

fun includes_of :: "item \<Rightarrow> string list" where
  "includes_of (Include g) = [g]"
| "includes_of (Ifndef m body) = concat (map includes_of body)"
| "includes_of (Namespace inl n body) = concat (map includes_of body)"
| "includes_of x = []"

fun defines_of :: "item \<Rightarrow> ident list" where
  "defines_of (Define m) = [m]"
| "defines_of (Ifndef m body) = concat (map defines_of body)"
| "defines_of (Namespace inl n body) = concat (map defines_of body)"
| "defines_of x = []"

fun usings_in :: "nspath \<Rightarrow> item \<Rightarrow> (nspath \<times> qname) list" where
  "usings_in cur (UsingDecl q n) = [(cur, (q, n))]"
| "usings_in cur (Ifndef m body) = concat (map (usings_in cur) body)"
| "usings_in cur (Namespace inl n body) = concat (map (usings_in (cur @ [n])) body)"
| "usings_in cur x = []"

definition usings_of :: "item \<Rightarrow> (nspath \<times> qname) list" where
  "usings_of x = usings_in [] x"

subsection \<open>Auxiliary notions for the statements\<close>

text \<open>The lines \<^verbatim>\<open>using q::n;\<close> for the names \<open>n\<close> of a list.\<close>

definition using_items :: "nspath \<Rightarrow> ident list \<Rightarrow> item list" where
  "using_items q ns = map (UsingDecl q) ns"

text \<open>
  The line \<^verbatim>\<open>using q::n;\<close> as \<open>process_item\<close> treats it: the mark \<open>Replaced\<close> when one of
  its identifiers is a macro, and the effect of the using-declaration otherwise.
\<close>

definition using_line ::
  "tu \<Rightarrow> nspath \<Rightarrow> nspath \<Rightarrow> ident \<Rightarrow> diag + ((tkind \<times> ctype) option \<times> qname option)" where
  "using_line s cur q n =
     (case find (\<lambda>t. t \<in> macros s) (''using'' # q @ [n]) of
        Some t \<Rightarrow> Inl (Replaced t)
      | None \<Rightarrow> using_effect s cur q n)"

text \<open>
  The state in which each name \<open>n\<close> of \<open>ns\<close> denotes in \<open>cur\<close> what \<^verbatim>\<open>using q::n;\<close> makes it
  denote there, and nothing else has changed.
\<close>

definition imported :: "nspath \<Rightarrow> nspath \<Rightarrow> ident list \<Rightarrow> tu \<Rightarrow> tu" where
  "imported cur q ns s =
     s\<lparr>types := (\<lambda>x. if fst x = cur \<and> snd x \<in> set ns
                      then (case using_line s cur q (snd x) of
                              Inl e \<Rightarrow> types s x | Inr b \<Rightarrow> fst b)
                      else types s x),
       vars := (\<lambda>x. if fst x = cur \<and> snd x \<in> set ns
                     then (case using_line s cur q (snd x) of
                             Inl e \<Rightarrow> vars s x | Inr b \<Rightarrow> snd b)
                     else vars s x)\<rparr>"

text \<open>
  Two states agree on a set of names when they have the same macros and namespaces
  and each of the names is declared alike in every namespace.
\<close>

definition agree_on :: "ident set \<Rightarrow> tu \<Rightarrow> tu \<Rightarrow> bool" where
  "agree_on A s s' \<longleftrightarrow>
     macros s = macros s' \<and> spaces s = spaces s' \<and> inlines s = inlines s' \<and>
     (\<forall>p. \<forall>a\<in>A. types s (p, a) = types s' (p, a) \<and> vars s (p, a) = vars s' (p, a))"


text \<open>
  The using-declaration \<^verbatim>\<open>using q::n;\<close> in \<open>cur\<close> clashes when it names something, and
  that is in conflict with what \<open>n\<close> already is in \<open>cur\<close>.
\<close>

definition clashes :: "tu \<Rightarrow> nspath \<Rightarrow> nspath \<Rightarrow> ident \<Rightarrow> bool" where
  "clashes s cur q n =
     (case find_target s cur q n of
        Inl e \<Rightarrow> False
      | Inr new \<Rightarrow> isl (merge s cur n new))"

text \<open>The identifiers of lines 6 to 11.\<close>

definition header_tokens :: "ident list" where
  "header_tokens = ''using'' # ''ArduinoJson'' # legacy_names"

subsection \<open>Libraries and translation units to run the header on\<close>

text \<open>
  Modelled from the spec: the library header \<^verbatim>\<open>ArduinoJson.hpp\<close>, which is not part of
  the repository. The spec asks of it that it provide, inside a stable nested
  namespace, definitions for the six types. \<open>versioned_library v sz\<close> is such a header:
  behind a guard, it defines each name \<open>n\<close> as a class of size \<open>sz n\<close> in the inline
  namespace \<^verbatim>\<open>ArduinoJson::v\<close>. \<open>library_defining ns v sz\<close> is the same header with the
  classes \<open>ns\<close> only: a version of the library that has dropped or renamed some.
\<close>

definition library_class :: "(ident \<Rightarrow> nat) \<Rightarrow> ident \<Rightarrow> item" where
  "library_class sz n = ClassDef n (sz n) 4 [''size'']"

definition library_defining :: "ident list \<Rightarrow> ident \<Rightarrow> (ident \<Rightarrow> nat) \<Rightarrow> item list" where
  "library_defining ns v sz =
     [PragmaOnce,
      Namespace False ''ArduinoJson'' [Namespace True v (map (library_class sz) ns)]]"

definition versioned_library :: "ident \<Rightarrow> (ident \<Rightarrow> nat) \<Rightarrow> item list" where
  "versioned_library v sz = library_defining legacy_names v sz"

text \<open>The class that \<open>library_class sz n\<close> defines when it stands in the namespace \<open>p\<close>.\<close>

definition class_at :: "nspath \<Rightarrow> (ident \<Rightarrow> nat) \<Rightarrow> ident \<Rightarrow> ctype" where
  "class_at p sz n =
     \<lparr>defined_in = p, class_name = n, size_of = sz n, align_of = 4, members = [''size'']\<rparr>"



text \<open>
  File systems: the header beside a library of version 6 with all six classes; the
  same with a further header that the shim does not mention; the same with a header
  that includes the shim; beside a library of version 7 that has dropped
  \<^verbatim>\<open>DynamicJsonDocument\<close>; and beside a library that, behind a macro guard, defines a
  macro and a variable as well.
\<close>

definition stub_fs :: filesystem where
  "stub_fs =
     [''ArduinoJson.hpp'' \<mapsto> versioned_library ''V6'' (\<lambda>n. 16),
      ''ArduinoJson.h'' \<mapsto> ArduinoJson_h]"

definition stub_fs_plus :: filesystem where
  "stub_fs_plus = stub_fs(''config.h'' \<mapsto> [Define ''USE_JSON''])"

definition nested_fs :: filesystem where
  "nested_fs = stub_fs(''api.h'' \<mapsto> [Include ''ArduinoJson.h''])"

definition v7_fs :: filesystem where
  "v7_fs =
     [''ArduinoJson.hpp'' \<mapsto> library_defining (butlast legacy_names) ''V7'' (\<lambda>n. 16),
      ''ArduinoJson.h'' \<mapsto> ArduinoJson_h]"

definition demo_library :: "item list" where
  "demo_library =
     [Ifndef ''ARDUINOJSON_HPP''
        [Define ''ARDUINOJSON_HPP'',
         Define ''ARDUINOJSON_VERSION'',
         Namespace False ''ArduinoJson''
           [ObjDef ''build_tag'',
            Namespace True ''V6'' (map (library_class (\<lambda>n. 16)) legacy_names)]]]"

definition demo_fs :: filesystem where
  "demo_fs = [''ArduinoJson.hpp'' \<mapsto> demo_library, ''ArduinoJson.h'' \<mapsto> ArduinoJson_h]"

text \<open>
  Translation units, as the lines of a source file \<^verbatim>\<open>main.cpp\<close>:
  \<^item> \<open>hidden_unit n\<close>: \<^verbatim>\<open>int n; #include <ArduinoJson.h>\<close>, a variable named like a legacy
    name before the header;
  \<^item> \<open>clash_unit\<close>: \<^verbatim>\<open>class JsonArray {}; #include <ArduinoJson.h>\<close>, a class of the
    consumer's own;
  \<^item> \<open>own_class_unit\<close>: \<^verbatim>\<open>class DynamicJsonDocument {};\<close> alone, the context in which the
    header is then included;
  \<^item> \<open>early_using_unit\<close>: the library header and \<^verbatim>\<open>using ArduinoJson::JsonArray;\<close>, the
    context of a consumer that has imported one of the names itself;
  \<^item> \<open>nested_unit\<close>: \<^verbatim>\<open>namespace esphome { #include <ArduinoJson.h> }\<close>;
  \<^item> \<open>library_elsewhere_unit\<close>: \<^verbatim>\<open>namespace vendor { #include <ArduinoJson.hpp> }\<close>
    followed by \<^verbatim>\<open>#include <ArduinoJson.h>\<close>.
\<close>

definition hidden_unit :: "ident \<Rightarrow> item list" where
  "hidden_unit n = [ObjDef n, Include ''ArduinoJson.h'']"

definition clash_unit :: "item list" where
  "clash_unit = [ClassDef ''JsonArray'' 8 4 [], Include ''ArduinoJson.h'']"

definition own_class_unit :: "item list" where
  "own_class_unit = [ClassDef ''DynamicJsonDocument'' 8 4 []]"




text \<open>
  The state in which a unit leaves the translation unit, starting from nothing;
  \<open>empty_tu\<close> when the unit is refused.
\<close>

definition state_after :: "filesystem \<Rightarrow> item list \<Rightarrow> tu" where
  "state_after fs unit =
     (case process_items fs 4 [] ''main.cpp'' unit empty_tu of
        Inl e \<Rightarrow> empty_tu
      | Inr s \<Rightarrow> s)"

section \<open>Properties of the translation phases\<close>

declare include_file.simps [simp del]

subsection \<open>States that agree on names\<close>

lemma agree_on_refl: "agree_on A s s"
  by (simp add: agree_on_def)

lemma agree_on_sym: "agree_on A s s' \<Longrightarrow> agree_on A s' s"
  by (simp add: agree_on_def)

lemma agree_on_subset: "agree_on A s s' \<Longrightarrow> B \<subseteq> A \<Longrightarrow> agree_on B s s'"
  by (auto simp: agree_on_def)

lemma agree_on_set_name:
  "m \<notin> A \<Longrightarrow> agree_on A (set_name s cur m b) s"
  by (auto simp: agree_on_def set_name_def)

lemma agree_inline_set:
  "agree_on A s s' \<Longrightarrow> inline_set s r = inline_set s' r"
  by (simp add: agree_on_def inline_set_def in_inline_set_def)

lemma agree_found_types:
  "agree_on A s s' \<Longrightarrow> a \<in> A \<Longrightarrow> found_types s r a = found_types s' r a"
  by (simp add: found_types_def agree_inline_set [of A s s']) (simp add: agree_on_def)

lemma agree_found_vars:
  "agree_on A s s' \<Longrightarrow> a \<in> A \<Longrightarrow> found_vars s r a = found_vars s' r a"
  by (simp add: found_vars_def agree_inline_set [of A s s']) (simp add: agree_on_def)

lemma agree_found_spaces:
  "agree_on A s s' \<Longrightarrow> found_spaces s r a = found_spaces s' r a"
  by (simp add: found_spaces_def agree_inline_set [of A s s']) (simp add: agree_on_def)

lemma agree_enter:
  "agree_on A s s' \<Longrightarrow> a \<in> A \<Longrightarrow> enter s r a = enter s' r a"
  by (simp add: enter_def agree_found_types [of A s s'] agree_found_spaces [of A s s'])

lemma agree_descend:
  "agree_on A s s' \<Longrightarrow> set as \<subseteq> A \<Longrightarrow> descend s r as = descend s' r as"
  by (induction as arbitrary: r) (simp_all add: agree_enter [of A s s'] cong: sum.case_cong)

lemma agree_resolve:
  "agree_on A s s' \<Longrightarrow> set q \<subseteq> A \<Longrightarrow> resolve s cur q = resolve s' cur q"
  by (cases q)
    (simp_all add: resolve_def agree_found_types [of A s s'] agree_found_spaces [of A s s']
      agree_enter [of A s s'] agree_descend [of A s s'] cong: sum.case_cong option.case_cong)

lemma agree_member_type:
  "agree_on A s s' \<Longrightarrow> n \<in> A \<Longrightarrow> member_type s r n = member_type s' r n"
  by (simp add: member_type_def agree_found_types [of A s s'] agree_found_vars [of A s s']
      agree_found_spaces [of A s s'])

lemma agree_type_named:
  "agree_on A s s' \<Longrightarrow> set q \<subseteq> A \<Longrightarrow> n \<in> A \<Longrightarrow> type_named s cur q n = type_named s' cur q n"
  by (cases q)
    (simp_all add: type_named_def agree_found_types [of A s s'] agree_found_vars [of A s s']
      agree_found_spaces [of A s s'] agree_member_type [of A s s'] agree_resolve [of A s s']
      cong: sum.case_cong option.case_cong)

lemma agree_find_target:
  assumes "agree_on A s s'" and "set q \<subseteq> A" and "n \<in> A"
  shows "find_target s cur q n = find_target s' cur q n"
proof -
  have "found_types s r n = found_types s' r n" "found_vars s r n = found_vars s' r n"
    "found_spaces s r n = found_spaces s' r n" for r
    using assms by (simp_all add: agree_found_types agree_found_vars agree_found_spaces)
  moreover have "resolve s cur q = resolve s' cur q"
    using assms by (simp add: agree_resolve)
  ultimately show ?thesis
    by (simp add: find_target_def cong: sum.case_cong if_cong)
qed

lemma agree_merge:
  "agree_on A s s' \<Longrightarrow> n \<in> A \<Longrightarrow> merge s cur n new = merge s' cur n new"
  by (simp add: merge_def agree_on_def cong: option.case_cong)

lemma agree_using_effect:
  "agree_on A s s' \<Longrightarrow> set q \<subseteq> A \<Longrightarrow> n \<in> A \<Longrightarrow> using_effect s cur q n = using_effect s' cur q n"
  by (simp add: using_effect_def agree_find_target [of A s s'] agree_merge [of A s s']
      cong: sum.case_cong)

lemma agree_using_line:
  "agree_on A s s' \<Longrightarrow> set q \<subseteq> A \<Longrightarrow> n \<in> A \<Longrightarrow> using_line s cur q n = using_line s' cur q n"
  by (simp add: using_line_def agree_using_effect [of A s s'] agree_on_def
      cong: option.case_cong)

lemma using_line_set_name:
  assumes "m \<noteq> n" and "m \<notin> set q"
  shows "using_line (set_name s cur m b) cur' q n = using_line s cur' q n"
proof -
  have "agree_on (insert n (set q)) (set_name s cur m b) s"
    using assms by (intro agree_on_set_name) auto
  then show ?thesis by (rule agree_using_line) auto
qed

lemma set_name_sel:
  "types (set_name s c n b) = (types s)((c, n) := fst b)"
  "vars (set_name s c n b) = (vars s)((c, n) := snd b)"
  "once (set_name s c n b) = once s"
  "macros (set_name s c n b) = macros s"
  "spaces (set_name s c n b) = spaces s"
  "inlines (set_name s c n b) = inlines s"
  "objects (set_name s c n b) = objects s"
  by (simp_all add: set_name_def)

subsection \<open>A run of using-declarations\<close>

lemma using_item_run:
  "process_item fs k cur f (UsingDecl q n) s =
     (case using_line s cur q n of
        Inl e \<Rightarrow> Inl e
      | Inr b \<Rightarrow> Inr (set_name s cur n b))"
  by (simp add: using_line_def split: option.splits)

lemma imported_Nil: "imported cur q [] s = s"
  by (simp add: imported_def)

lemma imported_Cons:
  assumes "using_line s cur q n = Inr b" and "n \<notin> set ns" and "n \<notin> set q"
  shows "imported cur q ns (set_name s cur n b) = imported cur q (n # ns) s"
proof -
  have same: "using_line (set_name s cur n b) cur q m = using_line s cur q m" if "m \<in> set ns" for m
    using that assms(2,3) by (intro using_line_set_name) auto
  show ?thesis
    using assms(1,2)
    by (intro tu.equality)
      (auto simp: imported_def set_name_sel fun_eq_iff same split: sum.splits)
qed

lemma find_None_all: "find P xs = None \<longleftrightarrow> (\<forall>x\<in>set xs. \<not> P x)"
  by (induction xs) auto

lemma find_Some_in: "find P xs = Some x \<Longrightarrow> x \<in> set xs \<and> P x"
  by (induction xs) (auto split: if_splits)

lemma using_items_run:
  assumes "distinct ns" and "set ns \<inter> set q = {}"
  shows "process_items fs k cur f (using_items q ns) s =
           (case find (\<lambda>n. isl (using_line s cur q n)) ns of
              None \<Rightarrow> Inr (imported cur q ns s)
            | Some n \<Rightarrow> Inl (projl (using_line s cur q n)))"
  using assms
proof (induction ns arbitrary: s)
  case Nil
  show ?case by (simp add: using_items_def imported_Nil)
next
  case (Cons n ns)
  from Cons.prems have d: "distinct ns" "set ns \<inter> set q = {}" "n \<notin> set ns" "n \<notin> set q"
    by auto
  show ?case
  proof (cases "using_line s cur q n")
    case (Inl e)
    have "process_items fs k cur f (using_items q (n # ns)) s = Inl e"
      by (simp add: using_items_def using_item_run Inl del: process_item.simps)
    with Inl show ?thesis by simp
  next
    case (Inr b)
    have same: "using_line (set_name s cur n b) cur q m = using_line s cur q m" if "m \<in> set ns" for m
      using that d by (intro using_line_set_name) auto
    have "process_items fs k cur f (using_items q (n # ns)) s =
            process_items fs k cur f (using_items q ns) (set_name s cur n b)"
      by (simp add: using_items_def using_item_run Inr del: process_item.simps)
    also have "\<dots> = (case find (\<lambda>m. isl (using_line (set_name s cur n b) cur q m)) ns of
              None \<Rightarrow> Inr (imported cur q ns (set_name s cur n b))
            | Some m \<Rightarrow> Inl (projl (using_line (set_name s cur n b) cur q m)))"
      using d(1,2) by (rule Cons.IH)
    also have "find (\<lambda>m. isl (using_line (set_name s cur n b) cur q m)) ns =
                 find (\<lambda>m. isl (using_line s cur q m)) ns"
      by (intro find_cong refl) (simp add: same)
    also have "(case find (\<lambda>m. isl (using_line s cur q m)) ns of
              None \<Rightarrow> Inr (imported cur q ns (set_name s cur n b))
            | Some m \<Rightarrow> Inl (projl (using_line (set_name s cur n b) cur q m))) =
          (case find (\<lambda>m. isl (using_line s cur q m)) ns of
              None \<Rightarrow> Inr (imported cur q (n # ns) s)
            | Some m \<Rightarrow> Inl (projl (using_line s cur q m)))"
      by (auto simp: imported_Cons [OF Inr d(3,4)] same split: option.splits dest: find_Some_in)
    finally show ?thesis using Inr by simp
  qed
qed

subsection \<open>Nothing retracts a guard\<close>

lemma once_grows:
  "include_file fs k cur g s = Inr s' \<Longrightarrow> once s \<subseteq> once s'"
  "elaborate fs k cur f x s = Inr s' \<Longrightarrow> once s \<subseteq> once s'"
  "process_item fs k cur f x s = Inr s' \<Longrightarrow> once s \<subseteq> once s'"
  "process_items fs k cur f xs s = Inr s' \<Longrightarrow> once s \<subseteq> once s'"
proof (induction fs k cur g s and fs k cur f x s and fs k cur f x s and fs k cur f xs s
    arbitrary: s' and s' and s' and s'
    rule: include_file_elaborate_process_item_process_items.induct)
  case (1 fs k cur g s)
  from "1.prems" obtain k' body where k: "k = Suc k'" and body: "fs g = Some body"
    by (auto simp: include_file.simps split: nat.splits option.splits)
  show ?case
  proof (cases "g \<in> once s")
    case True
    with k body "1.prems" show ?thesis by (simp add: include_file.simps)
  next
    case False
    with k body "1.prems" have "process_items fs k' cur g body s = Inr s'"
      by (simp add: include_file.simps)
    from "1.IH" [OF k body False this] show ?thesis .
  qed
next
  case (2 fs k cur f s)
  then show ?case by auto
next
  case (3 fs k cur f g s)
  then show ?case by simp
next
  case (4 fs k cur f m s)
  then show ?case by auto
next
  case (5 fs k cur f m body s)
  then show ?case by (auto split: if_splits)
next
  case (6 fs k cur f c s)
  then show ?case by simp
next
  case (7 fs k cur f s)
  then show ?case by simp
next
  case (8 fs k cur f n sz al ms s)
  then show ?case by (auto split: if_splits)
next
  case (9 fs k cur f n q m s)
  then show ?case by (auto simp: set_name_sel split: option.splits sum.splits)
next
  case (10 fs k cur f q n s)
  then show ?case by (auto simp: set_name_sel split: sum.splits)
next
  case (11 fs k cur f n s)
  then show ?case by (auto split: if_splits)
next
  case (12 fs k cur f inl n body s)
  show ?case
  proof (cases "cur @ [n] \<in> set (spaces s)")
    case True
    with "12.prems" have ok: "\<not> (types s (cur, n) \<noteq> None \<or> vars s (cur, n) \<noteq> None)"
      "\<not> (inl \<and> cur @ [n] \<notin> inlines s)"
      and run: "process_items fs k (cur @ [n]) f body s = Inr s'"
      by (auto split: if_splits)
    from "12.IH"(1) [OF ok(1) True ok(2) run] show ?thesis .
  next
    case False
    with "12.prems" have ok: "\<not> (types s (cur, n) \<noteq> None \<or> vars s (cur, n) \<noteq> None)"
      and run: "process_items fs k (cur @ [n]) f body
             (s\<lparr>spaces := spaces s @ [cur @ [n]],
                inlines := (if inl then insert (cur @ [n]) (inlines s) else inlines s)\<rparr>) = Inr s'"
      by (auto split: if_splits)
    from "12.IH"(2) [OF ok False run] show ?thesis by simp
  qed
next
  case (13 fs k cur f x s)
  then show ?case by (auto split: option.splits)
next
  case (14 fs k cur f s)
  then show ?case by simp
next
  case (15 fs k cur f x xs s)
  from "15.prems" obtain s1 where s1: "process_item fs k cur f x s = Inr s1"
    and rest: "process_items fs k cur f xs s1 = Inr s'"
    by (auto split: sum.splits simp del: process_item.simps)
  from "15.IH"(1) [OF s1] "15.IH"(2) [OF s1 rest] show ?case by blast
qed

lemma skipped_when_once:
  assumes "fs f = Some body" and "f \<in> once t"
  shows "include_file fs (Suc j) cur f t = Inr t"
  using assms by (simp add: include_file.simps)

subsection \<open>The header, run\<close>

lemma process_items_append:
  "process_items fs k cur f (xs @ ys) s =
     (case process_items fs k cur f xs s of
        Inl e \<Rightarrow> Inl e
      | Inr s1 \<Rightarrow> process_items fs k cur f ys s1)"
  by (induction xs arbitrary: s) (simp_all split: sum.splits del: process_item.simps)

lemma header_split:
  "ArduinoJson_h =
     take 3 ArduinoJson_h @
     [Blank, Comment ''Restore legacy ArduinoJson v6 symbols expected by ESPHome components''] @
     using_items [''ArduinoJson''] legacy_names"
  by (simp add: ArduinoJson_h_def using_items_def legacy_names_def)

lemma after_line3_eq:
  "after_line3 fs k cur f s =
     include_file fs k cur ''ArduinoJson.hpp'' (s\<lparr>once := insert f (once s)\<rparr>)"
  by (simp add: after_line3_def ArduinoJson_h_def split: sum.splits)

lemma legacy_names_distinct: "distinct legacy_names \<and> length legacy_names = 6"
  by (simp add: legacy_names_def)

lemma library_name_not_legacy: "''ArduinoJson'' \<notin> set legacy_names"
  by (simp add: legacy_names_def)

lemma header_run:
  "process_items fs k cur f ArduinoJson_h s =
     (case after_line3 fs k cur f s of
        Inl e \<Rightarrow> Inl e
      | Inr s1 \<Rightarrow>
          (case find (\<lambda>n. isl (using_line s1 cur [''ArduinoJson''] n)) legacy_names of
             None \<Rightarrow> Inr (imported cur [''ArduinoJson''] legacy_names s1)
           | Some n \<Rightarrow> Inl (projl (using_line s1 cur [''ArduinoJson''] n))))"
proof -
  have run: "process_items fs k cur f (using_items [''ArduinoJson''] legacy_names) s1 =
          (case find (\<lambda>n. isl (using_line s1 cur [''ArduinoJson''] n)) legacy_names of
             None \<Rightarrow> Inr (imported cur [''ArduinoJson''] legacy_names s1)
           | Some n \<Rightarrow> Inl (projl (using_line s1 cur [''ArduinoJson''] n)))" for s1
    using legacy_names_distinct library_name_not_legacy
    by (intro using_items_run) auto
  have "process_items fs k cur f ArduinoJson_h s =
          process_items fs k cur f (take 3 ArduinoJson_h @
            [Blank, Comment ''Restore legacy ArduinoJson v6 symbols expected by ESPHome components''] @
            using_items [''ArduinoJson''] legacy_names) s"
    by (subst header_split) (rule refl)
  also have "\<dots> = (case after_line3 fs k cur f s of
        Inl e \<Rightarrow> Inl e
      | Inr s1 \<Rightarrow> process_items fs k cur f (using_items [''ArduinoJson''] legacy_names) s1)"
    by (simp add: process_items_append [of _ _ _ _ "take 3 ArduinoJson_h"]
        process_items_append [of _ _ _ _ "[Blank, Comment _]"] after_line3_def split: sum.splits)
  finally show ?thesis by (simp add: run cong: sum.case_cong)
qed

lemma first_inclusion:
  assumes "fs f = Some ArduinoJson_h" and "f \<notin> once s"
  shows "include_file fs (Suc k) cur f s = process_items fs k cur f ArduinoJson_h s"
  using assms by (simp add: include_file.simps)

lemma header_included:
  assumes "fs f = Some ArduinoJson_h" and "f \<notin> once s"
    and "include_file fs (Suc k) cur f s = Inr s'"
  obtains s1 where "after_line3 fs k cur f s = Inr s1"
    and "\<forall>n\<in>set legacy_names. \<exists>b. using_line s1 cur [''ArduinoJson''] n = Inr b"
    and "s' = imported cur [''ArduinoJson''] legacy_names s1"
proof -
  from assms have run: "process_items fs k cur f ArduinoJson_h s = Inr s'"
    by (simp add: first_inclusion)
  then obtain s1 where s1: "after_line3 fs k cur f s = Inr s1"
    by (auto simp: header_run split: sum.splits)
  with run have none: "find (\<lambda>n. isl (using_line s1 cur [''ArduinoJson''] n)) legacy_names = None"
    and s': "s' = imported cur [''ArduinoJson''] legacy_names s1"
    by (auto simp: header_run split: option.splits)
  have ok: "\<forall>n\<in>set legacy_names. \<exists>b. using_line s1 cur [''ArduinoJson''] n = Inr b"
  proof
    fix n assume "n \<in> set legacy_names"
    with none have "\<not> isl (using_line s1 cur [''ArduinoJson''] n)"
      by (simp add: find_None_all)
    then show "\<exists>b. using_line s1 cur [''ArduinoJson''] n = Inr b"
      by (cases "using_line s1 cur [''ArduinoJson''] n") auto
  qed
  from s1 ok s' show thesis by (rule that)
qed


lemma imported_frame:
  "once (imported cur q ns s) = once s"
  "macros (imported cur q ns s) = macros s"
  "spaces (imported cur q ns s) = spaces s"
  "inlines (imported cur q ns s) = inlines s"
  "objects (imported cur q ns s) = objects s"
  by (simp_all add: imported_def)

lemma imported_other:
  "p \<noteq> cur \<or> n \<notin> set ns \<Longrightarrow>
     types (imported cur q ns s) (p, n) = types s (p, n) \<and>
     vars (imported cur q ns s) (p, n) = vars s (p, n)"
  by (auto simp: imported_def)

lemma imported_at:
  "n \<in> set ns \<Longrightarrow> using_line s cur q n = Inr b \<Longrightarrow>
     types (imported cur q ns s) (cur, n) = fst b \<and>
     vars (imported cur q ns s) (cur, n) = snd b"
  by (simp add: imported_def)

lemma included_once:
  assumes "fs f = Some ArduinoJson_h" and "include_file fs k cur f s = Inr s'"
  shows "f \<in> once s'"
proof (cases "f \<in> once s")
  case True
  with assms show ?thesis by (auto simp: include_file.simps split: nat.splits)
next
  case False
  from assms obtain k' where k: "k = Suc k'"
    by (auto simp: include_file.simps split: nat.splits)
  from header_included [OF assms(1) False assms(2) [unfolded k]] obtain s1 where
    s1: "after_line3 fs k' cur f s = Inr s1"
    and s': "s' = imported cur [''ArduinoJson''] legacy_names s1"
    by blast
  from s1 have "once (s\<lparr>once := insert f (once s)\<rparr>) \<subseteq> once s1"
    unfolding after_line3_eq by (rule once_grows(1))
  then have "f \<in> once s1" by auto
  then show ?thesis by (simp add: s' imported_frame)
qed

subsection \<open>What lookup finds\<close>

lemma set_map_filter: "set (List.map_filter g xs) = {y. \<exists>x\<in>set xs. g x = Some y}"
  by (induction xs) (auto simp: List.map_filter_def)

lemma inline_set_self: "r \<in> set (inline_set s r)"
  by (simp add: inline_set_def)

lemma set_found_types:
  "set (found_types s r n) = {b. \<exists>q\<in>set (inline_set s r). types s (q, n) = Some b}"
  by (simp add: found_types_def set_map_filter)

lemma set_found_vars:
  "set (found_vars s r n) = {v. \<exists>q\<in>set (inline_set s r). vars s (q, n) = Some v}"
  by (simp add: found_vars_def set_map_filter)

lemma map_filter_empty: "List.map_filter g xs = [] \<longleftrightarrow> (\<forall>x\<in>set xs. g x = None)"
  by (induction xs) (auto simp: List.map_filter_def)

lemma found_types_empty:
  "found_types s r n = [] \<longleftrightarrow> (\<forall>q\<in>set (inline_set s r). types s (q, n) = None)"
  by (simp add: found_types_def map_filter_empty)

lemma found_vars_empty:
  "found_vars s r n = [] \<longleftrightarrow> (\<forall>q\<in>set (inline_set s r). vars s (q, n) = None)"
  by (simp add: found_vars_def map_filter_empty)

lemma found_spaces_empty:
  "found_spaces s r n = [] \<longleftrightarrow> (\<forall>q\<in>set (inline_set s r). q @ [n] \<notin> set (spaces s))"
  by (auto simp: found_spaces_def filter_empty_conv)

lemma unique_type_iff:
  "map_option snd (unique_type ts) = Some t \<longleftrightarrow> ts \<noteq> [] \<and> (\<forall>x\<in>set ts. snd x = t)"
  by (cases ts) (auto simp: unique_type_def list_all_iff)

lemma unique_type_Some:
  "unique_type ts = Some b \<Longrightarrow> b \<in> set ts \<and> (\<forall>x\<in>set ts. snd x = snd b)"
  by (cases ts) (auto simp: unique_type_def list_all_iff split: if_splits)

lemma unique_type_None:
  "unique_type ts = None \<Longrightarrow> ts \<noteq> [] \<Longrightarrow> \<exists>x\<in>set ts. \<exists>y\<in>set ts. snd x \<noteq> snd y"
  by (cases ts) (auto simp: unique_type_def list_all_iff split: if_splits)

lemma member_type_iff:
  "member_type s r n = Some t \<longleftrightarrow>
     found_vars s r n = [] \<and> found_spaces s r n = [] \<and>
     found_types s r n \<noteq> [] \<and> (\<forall>x\<in>set (found_types s r n). snd x = t)"
proof (cases "found_vars s r n \<noteq> [] \<or> found_spaces s r n \<noteq> []")
  case True
  then show ?thesis by (auto simp: member_type_def)
next
  case False
  then have "member_type s r n = map_option snd (unique_type (found_types s r n))"
    by (simp add: member_type_def)
  with False show ?thesis by (simp only: unique_type_iff) simp
qed

lemma last_scopes_in: "scopes_in cur \<noteq> [] \<and> last (scopes_in cur) = cur"
  by (induction cur) (auto simp: last_map)

lemma enclosing_Cons: "\<exists>cs. enclosing cur = cur # cs"
proof -
  from last_scopes_in [of cur] obtain xs where "scopes_in cur = xs @ [cur]"
    by (metis append_butlast_last_id)
  then show ?thesis by (simp add: enclosing_def)
qed

lemma unqualified_declared_here:
  assumes "types s (cur, n) \<noteq> None \<or> vars s (cur, n) \<noteq> None"
  shows "type_named s cur [] n = member_type s cur n"
proof -
  from assms have "found_types s cur n \<noteq> [] \<or> found_vars s cur n \<noteq> []"
    using inline_set_self [of cur s] by (auto simp: found_types_empty found_vars_empty)
  moreover obtain cs where "enclosing cur = cur # cs"
    using enclosing_Cons by blast
  ultimately show ?thesis by (auto simp: type_named_def)
qed

subsection \<open>An accepted using-declaration\<close>

lemma find_target_Inr:
  assumes "find_target s cur q n = Inr (nt, nv)"
  obtains r where "resolve s cur q = Inr r" and "found_spaces s r n = []"
    and "nt = unique_type (found_types s r n)"
    and "found_types s r n \<noteq> [] \<longrightarrow> nt \<noteq> None"
    and "nv = None \<longleftrightarrow> found_vars s r n = []"
    and "nt \<noteq> None \<or> nv \<noteq> None"
proof -
  from assms obtain r where r: "resolve s cur q = Inr r"
    by (auto simp: find_target_def split: sum.splits)
  with assms have a: "found_spaces s r n = []"
    and b: "\<not> (found_types s r n = [] \<and> found_vars s r n = [])"
    and c: "\<not> ((found_types s r n \<noteq> [] \<and> unique_type (found_types s r n) = None) \<or>
                1 < length (found_vars s r n))"
    and d: "nt = unique_type (found_types s r n)"
    and e: "nv = (case found_vars s r n of [] \<Rightarrow> None | v # vs \<Rightarrow> Some v)"
    by (auto simp: find_target_def split: if_splits)
  from c d have f: "found_types s r n \<noteq> [] \<longrightarrow> nt \<noteq> None" by auto
  from e have g: "nv = None \<longleftrightarrow> found_vars s r n = []"
    by (cases "found_vars s r n") auto
  from b f g have "nt \<noteq> None \<or> nv \<noteq> None" by auto
  with r a d f g show thesis by (rule that)
qed

lemma merge_Inr:
  assumes "merge s cur n (nt, nv) = Inr (tb, vb)"
  shows "cur @ [n] \<notin> set (spaces s)"
    and "nt = None \<Longrightarrow> tb = types s (cur, n)"
    and "nt = Some b \<Longrightarrow> \<exists>b'. tb = Some b' \<and> snd b' = snd b \<and> (types s (cur, n) = None \<longrightarrow> b' = b)
                               \<and> (types s (cur, n) \<noteq> None \<longrightarrow> types s (cur, n) = Some b')"
    and "nv = None \<Longrightarrow> vb = vars s (cur, n)"
    and "nv = Some v \<Longrightarrow> vb = Some v"
  using assms
  by (auto simp: merge_def Let_def split: if_splits option.splits prod.splits tkind.splits)

lemma using_line_Inr:
  assumes "using_line s cur q n = Inr b"
  shows "using_effect s cur q n = Inr b" and "\<forall>t\<in>set (''using'' # q @ [n]). t \<notin> macros s"
proof -
  from assms have none: "find (\<lambda>t. t \<in> macros s) (''using'' # q @ [n]) = None"
    by (auto simp: using_line_def split: option.splits)
  with assms show "using_effect s cur q n = Inr b"
    by (simp add: using_line_def)
  from none show "\<forall>t\<in>set (''using'' # q @ [n]). t \<notin> macros s"
    by (simp only: find_None_all)
qed

lemma using_line_parts:
  assumes "using_line s cur q n = Inr (tb, vb)"
  obtains r nt nv where "resolve s cur q = Inr r" and "found_spaces s r n = []"
    and "nt = unique_type (found_types s r n)"
    and "found_types s r n \<noteq> [] \<longrightarrow> nt \<noteq> None"
    and "nv = None \<longleftrightarrow> found_vars s r n = []"
    and "nt \<noteq> None \<or> nv \<noteq> None"
    and "merge s cur n (nt, nv) = Inr (tb, vb)"
proof -
  from using_line_Inr(1) [OF assms] obtain nt nv where
    ft: "find_target s cur q n = Inr (nt, nv)" and m: "merge s cur n (nt, nv) = Inr (tb, vb)"
    by (auto simp: using_effect_def split: sum.splits)
  from ft obtain r where "resolve s cur q = Inr r" "found_spaces s r n = []"
    "nt = unique_type (found_types s r n)" "found_types s r n \<noteq> [] \<longrightarrow> nt \<noteq> None"
    "nv = None \<longleftrightarrow> found_vars s r n = []" "nt \<noteq> None \<or> nv \<noteq> None"
    by (rule find_target_Inr)
  with m show thesis by (rule that [rotated -1])
qed

lemma imported_inline_set: "inline_set (imported cur q ns s) r = inline_set s r"
  by (simp add: inline_set_def in_inline_set_def imported_frame)

lemma imported_found_spaces: "found_spaces (imported cur q ns s) r n = found_spaces s r n"
  by (simp add: found_spaces_def imported_inline_set imported_frame)

lemma imported_agree: "agree_on (- set ns) (imported cur q ns s) s"
  by (auto simp: agree_on_def imported_frame imported_other)

lemma imported_resolve:
  assumes "set p \<inter> set ns = {}"
  shows "resolve (imported cur q ns s) c p = resolve s c p"
  using imported_agree [of ns cur q s] assms by (intro agree_resolve) auto

text \<open>
  The state after the header, seen from one legacy name: \<open>s'\<close> is the state after the six
  using-declarations, \<open>(tb, vb)\<close> what the name denotes in \<open>cur\<close> there.
\<close>

lemma legacy_name_after:
  assumes "N \<in> set ns" and "using_line s cur q N = Inr (tb, vb)"
  shows "types (imported cur q ns s) (p, N) = (if p = cur then tb else types s (p, N))"
    and "vars (imported cur q ns s) (p, N) = (if p = cur then vb else vars s (p, N))"
  using assms imported_at [OF assms] imported_other [of p cur N ns q s] by auto

lemma merge_some:
  assumes m: "merge s cur n (nt, nv) = Inr (tb, vb)" and some: "nt \<noteq> None \<or> nv \<noteq> None"
  shows "tb \<noteq> None \<or> vb \<noteq> None"
proof (cases nt)
  case None
  with some obtain v where "nv = Some v" by blast
  from merge_Inr(5) [OF m this] show ?thesis by simp
next
  case (Some b)
  from merge_Inr(3) [OF m Some] show ?thesis by blast
qed

lemma merge_var_none:
  assumes m: "merge s cur n (nt, nv) = Inr (tb, None)"
  shows "nv = None"
proof (cases nv)
  case (Some v)
  from merge_Inr(5) [OF m Some] show ?thesis by simp
qed simp

lemma found_vars_imported:
  assumes "N \<in> set ns" and "using_line s cur q N = Inr (tb, vb)"
  shows "found_vars (imported cur q ns s) r N = [] \<longleftrightarrow>
           (\<forall>p\<in>set (inline_set s r). (if p = cur then vb else vars s (p, N)) = None)"
  by (simp only: found_vars_empty imported_inline_set legacy_name_after(2) [OF assms])

lemma found_types_imported:
  assumes "N \<in> set ns" and "using_line s cur q N = Inr (tb, vb)"
  shows "set (found_types (imported cur q ns s) r N) =
           {b. \<exists>p\<in>set (inline_set s r). (if p = cur then tb else types s (p, N)) = Some b}"
  by (simp only: set_found_types imported_inline_set legacy_name_after(1) [OF assms])

lemma denotes_library_type:
  assumes N: "N \<in> set ns" and disj: "set q \<inter> set ns = {}"
    and ok: "using_line s cur q N = Inr (tb, vb)"
    and den: "type_named (imported cur q ns s) cur [] N = Some t"
    and q: "q \<noteq> []"
  shows "type_named (imported cur q ns s) cur q N = Some t"
proof -
  let ?s' = "imported cur q ns s"
  note at = legacy_name_after [OF N ok]
  note fv = found_vars_imported [OF N ok]
  note ft = found_types_imported [OF N ok]
  from ok obtain r nt nv where r: "resolve s cur q = Inr r" and sp: "found_spaces s r N = []"
    and nt: "nt = unique_type (found_types s r N)"
    and nv: "nv = None \<longleftrightarrow> found_vars s r N = []"
    and some: "nt \<noteq> None \<or> nv \<noteq> None"
    and m: "merge s cur N (nt, nv) = Inr (tb, vb)"
    by (rule using_line_parts)
  have tbvb: "tb \<noteq> None \<or> vb \<noteq> None"
    using m some by (rule merge_some)
  then have "types ?s' (cur, N) \<noteq> None \<or> vars ?s' (cur, N) \<noteq> None"
    by (simp add: at)
  then have "type_named ?s' cur [] N = member_type ?s' cur N"
    by (rule unqualified_declared_here)
  with den have "member_type ?s' cur N = Some t" by simp
  then have here: "found_vars ?s' cur N = []" "found_types ?s' cur N \<noteq> []"
    "\<forall>x\<in>set (found_types ?s' cur N). snd x = t"
    unfolding member_type_iff by blast+
  from here(1) inline_set_self [of cur s] have vb: "vb = None"
    unfolding fv by (auto dest: bspec)
  with m have nv': "nv = None" by (simp add: merge_var_none)
  with nv have novars: "found_vars s r N = []" by simp
  from nv' some obtain b0 where b0: "nt = Some b0" by blast
  with nt have "unique_type (found_types s r N) = Some b0" by simp
  from unique_type_Some [OF this]
  have u1: "b0 \<in> set (found_types s r N)" and u2: "\<forall>x\<in>set (found_types s r N). snd x = snd b0"
    by blast+
  from merge_Inr(3) [OF m b0] obtain b' where b': "tb = Some b'" "snd b' = snd b0"
    by blast
  have "b' \<in> set (found_types ?s' cur N)"
    unfolding ft using inline_set_self [of cur s] b'(1) by auto
  with here(3) b'(2) have t: "snd b0 = t" by auto
  have v: "found_vars ?s' r N = []"
    unfolding fv using novars vb by (simp add: found_vars_empty)
  have s: "found_spaces ?s' r N = []"
    using sp by (simp add: imported_found_spaces)
  from u1 obtain p where p: "p \<in> set (inline_set s r)" "types s (p, N) = Some b0"
    unfolding set_found_types by blast
  have "(if p = cur then tb else types s (p, N)) = Some (if p = cur then b' else b0)"
    using p(2) b'(1) by simp
  with p(1) have "(if p = cur then b' else b0) \<in> set (found_types ?s' r N)"
    unfolding ft by blast
  then have ne: "found_types ?s' r N \<noteq> []" by auto
  have all: "\<forall>x\<in>set (found_types ?s' r N). snd x = t"
  proof
    fix x assume "x \<in> set (found_types ?s' r N)"
    then obtain p where p: "p \<in> set (inline_set s r)"
      and x: "(if p = cur then tb else types s (p, N)) = Some x"
      unfolding ft by blast
    show "snd x = t"
    proof (cases "p = cur")
      case True
      with x b' t show ?thesis by simp
    next
      case False
      with x p have "x \<in> set (found_types s r N)"
        unfolding set_found_types by auto
      with u2 t show ?thesis by simp
    qed
  qed
  from v s ne all have "member_type ?s' r N = Some t"
    by (simp only: member_type_iff simp_thms)
  moreover have "resolve ?s' cur q = Inr r"
    using r disj by (simp add: imported_resolve)
  ultimately show ?thesis
    using q by (cases q) (simp_all add: type_named_def)
qed

lemma denotes_when_not_hidden:
  assumes N: "N \<in> set ns"
    and ok: "using_line s cur q N = Inr (tb, vb)"
    and r: "resolve s cur q = Inr r"
    and clean: "found_types s cur N = []" "found_vars s cur N = []" "found_spaces s cur N = []"
    and lib: "found_vars s r N = []"
  shows "\<exists>t. type_named (imported cur q ns s) cur [] N = Some t"
proof -
  let ?s' = "imported cur q ns s"
  note at = legacy_name_after [OF N ok]
  note fv = found_vars_imported [OF N ok]
  note ft = found_types_imported [OF N ok]
  from ok obtain r' nt nv where r': "resolve s cur q = Inr r'"
    and nv: "nv = None \<longleftrightarrow> found_vars s r' N = []"
    and some: "nt \<noteq> None \<or> nv \<noteq> None"
    and m: "merge s cur N (nt, nv) = Inr (tb, vb)"
    by (rule using_line_parts)
  from r r' have "r' = r" by simp
  with nv lib have nv': "nv = None" by simp
  with some obtain b0 where b0: "nt = Some b0" by blast
  from clean(1) inline_set_self [of cur s] have told: "types s (cur, N) = None"
    unfolding found_types_empty by blast
  from clean(2) inline_set_self [of cur s] have vold: "vars s (cur, N) = None"
    unfolding found_vars_empty by blast
  from merge_Inr(3) [OF m b0] told have tb: "tb = Some b0" by auto
  from merge_Inr(4) [OF m nv'] vold have vb: "vb = None" by simp
  have v: "found_vars ?s' cur N = []"
    unfolding fv using clean(2) vb by (simp add: found_vars_empty)
  have s: "found_spaces ?s' cur N = []"
    using clean(3) by (simp add: imported_found_spaces)
  have "b0 \<in> set (found_types ?s' cur N)"
    unfolding ft using inline_set_self [of cur s] tb by auto
  then have ne: "found_types ?s' cur N \<noteq> []" by auto
  have all: "\<forall>x\<in>set (found_types ?s' cur N). snd x = snd b0"
  proof
    fix x assume "x \<in> set (found_types ?s' cur N)"
    then obtain p where p: "p \<in> set (inline_set s cur)"
      and x: "(if p = cur then tb else types s (p, N)) = Some x"
      unfolding ft by blast
    from clean(1) p have "types s (p, N) = None"
      unfolding found_types_empty by blast
    with x tb show "snd x = snd b0" by (cases "p = cur") simp_all
  qed
  from v s ne all have "member_type ?s' cur N = Some (snd b0)"
    unfolding member_type_iff by blast
  moreover have "types ?s' (cur, N) \<noteq> None \<or> vars ?s' (cur, N) \<noteq> None"
    using tb by (simp add: at)
  then have "type_named ?s' cur [] N = member_type ?s' cur N"
    by (rule unqualified_declared_here)
  ultimately show ?thesis by simp
qed

subsection \<open>The versioned library, run\<close>



subsection \<open>Lookup in a state that holds the versioned library\<close>


lemma inline_chain_under:
  "inline_chain {[a, v]} [a] q \<longleftrightarrow> q = [] \<or> q = [v]"
proof (cases q)
  case Nil
  then show ?thesis by simp
next
  case (Cons w ws)
  then show ?thesis by (cases ws) auto
qed





subsection \<open>The header in a fresh context\<close>











subsection \<open>Lines that include nothing\<close>

lemma items_fs_independent:
  assumes "\<And>x k cur s. x \<in> set xs \<Longrightarrow>
             elaborate fs k cur f x s = elaborate fs' k cur f x s"
  shows "process_items fs k cur f xs s = process_items fs' k cur f xs s"
  using assms
proof (induction xs arbitrary: s)
  case Nil
  show ?case by simp
next
  case (Cons x xs)
  have "elaborate fs k cur f x s = elaborate fs' k cur f x s"
    by (rule Cons.prems) simp
  then have "process_item fs k cur f x s = process_item fs' k cur f x s"
    by (simp cong: option.case_cong)
  moreover have "process_items fs k cur f xs t = process_items fs' k cur f xs t" for t
    by (rule Cons.IH) (simp add: Cons.prems)
  ultimately show ?case
    by (simp del: process_item.simps cong: sum.case_cong)
qed

lemma item_fs_independent:
  "includes_of x = [] \<Longrightarrow> elaborate fs k cur f x s = elaborate fs' k cur f x s"
proof (induction x arbitrary: k cur s)
  case (Include g)
  then show ?case by simp
next
  case (Ifndef m body)
  have "process_items fs k cur f body s = process_items fs' k cur f body s"
  proof (rule items_fs_independent)
    fix x k cur s assume "x \<in> set body"
    with Ifndef.prems Ifndef.IH [of x]
    show "elaborate fs k cur f x s = elaborate fs' k cur f x s" by simp
  qed
  then show ?case by simp
next
  case (Namespace inl n body)
  have "process_items fs k c f body t = process_items fs' k c f body t" for c t
  proof (rule items_fs_independent)
    fix x k cur s assume "x \<in> set body"
    with Namespace.prems Namespace.IH [of x]
    show "elaborate fs k cur f x s = elaborate fs' k cur f x s" by simp
  qed
  then show ?case by simp
qed simp_all

lemma include_fs_independent:
  assumes "fs g = Some body" and "fs' g = Some body" and "concat (map includes_of body) = []"
  shows "include_file fs k cur g s = include_file fs' k cur g s"
proof -
  have "process_items fs j cur g body s = process_items fs' j cur g body s" for j
  proof (rule items_fs_independent)
    fix x k cur s assume "x \<in> set body"
    with assms(3) have "includes_of x = []" by simp
    then show "elaborate fs k cur g x s = elaborate fs' k cur g x s"
      by (rule item_fs_independent)
  qed
  with assms(1,2) show ?thesis
    by (simp add: include_file.simps split: nat.splits)
qed

subsection \<open>A second inclusion\<close>

lemma included_twice:
  assumes "fs f = Some ArduinoJson_h"
  shows "process_items fs k cur h [Include f, Include f] s = process_items fs k cur h [Include f] s"
proof (cases "include_file fs k cur f s")
  case (Inl e)
  then show ?thesis by simp
next
  case (Inr s')
  with assms have "f \<in> once s'" by (rule included_once)
  moreover from Inr obtain j where "k = Suc j"
    by (cases k) (simp_all add: include_file.simps)
  ultimately have "include_file fs k cur f s' = Inr s'"
    using assms by (simp add: skipped_when_once)
  with Inr show ?thesis by simp
qed

lemma included_again:
  assumes "fs f = Some ArduinoJson_h" and "include_file fs k cur f s = Inr s'"
    and "once s' \<subseteq> once t"
  shows "include_file fs (Suc j) c f t = Inr t"
proof -
  from assms(1,2) have "f \<in> once s'" by (rule included_once)
  with assms(3) have "f \<in> once t" by blast
  with assms(1) show ?thesis by (rule skipped_when_once)
qed

subsection \<open>What lines 6 to 11 change\<close>



subsection \<open>When the header fails\<close>

lemma using_line_plain:
  assumes "macros s \<inter> set (''using'' # q @ ns) = {}" and "n \<in> set ns"
  shows "using_line s cur q n = using_effect s cur q n"
proof -
  from assms have "find (\<lambda>t. t \<in> macros s) (''using'' # q @ [n]) = None"
    by (auto simp: find_None_all)
  then show ?thesis by (simp add: using_line_def)
qed

lemma no_clash_effect:
  assumes "\<not> clashes s cur q n"
  shows "isl (using_effect s cur q n) \<longleftrightarrow> isl (find_target s cur q n)"
    and "isl (find_target s cur q n) \<Longrightarrow> using_effect s cur q n = Inl (projl (find_target s cur q n))"
  using assms by (auto simp: clashes_def using_effect_def split: sum.splits)

lemma find_cong_set:
  assumes "\<forall>x\<in>set xs. P x = Q x"
  shows "find P xs = find Q xs"
  using assms by (induction xs) simp_all

lemma missing_name_diagnostic:
  assumes "resolve s cur q = Inr r" and "found_types s r n = []" and "found_vars s r n = []"
    and "found_spaces s r n = []"
  shows "find_target s cur q n = Inl (Undeclared r n)"
  using assms by (simp add: find_target_def)

subsection \<open>Inline namespaces\<close>

lemma inline_chain_append:
  "inline_chain inl r (d1 @ d2) \<longleftrightarrow> inline_chain inl r d1 \<and> inline_chain inl (r @ d1) d2"
  by (induction d1 arbitrary: r) auto

lemma in_inline_set_iff:
  "p \<in> set (inline_set s r) \<longleftrightarrow>
     p = r \<or> (p \<in> set (spaces s) \<and> (\<exists>d. p = r @ d \<and> inline_chain (inlines s) r d))"
proof -
  have "(take (length r) p = r \<and> inline_chain (inlines s) r (drop (length r) p)) \<longleftrightarrow>
        (\<exists>d. p = r @ d \<and> inline_chain (inlines s) r d)"
  proof
    assume a: "take (length r) p = r \<and> inline_chain (inlines s) r (drop (length r) p)"
    then have "p = r @ drop (length r) p"
      using append_take_drop_id [of "length r" p] by simp
    with a show "\<exists>d. p = r @ d \<and> inline_chain (inlines s) r d" by blast
  next
    assume "\<exists>d. p = r @ d \<and> inline_chain (inlines s) r d"
    then show "take (length r) p = r \<and> inline_chain (inlines s) r (drop (length r) p)"
      by auto
  qed
  then show ?thesis
    by (auto simp: inline_set_def in_inline_set_def)
qed

lemma inline_set_chain:
  assumes "p \<in> set (inline_set s r)"
  obtains d where "p = r @ d" and "inline_chain (inlines s) r d"
proof (cases "p = r")
  case True
  then have "p = r @ []" "inline_chain (inlines s) r []" by simp_all
  then show thesis by (rule that)
next
  case False
  with assms show thesis
    unfolding in_inline_set_iff using that by blast
qed

lemma inline_set_step:
  assumes q: "q \<in> set (inline_set s r)" and inl: "q @ [v] \<in> inlines s"
    and sp: "q @ [v] \<in> set (spaces s)"
  shows "q @ [v] \<in> set (inline_set s r)"
proof -
  from q obtain d where d: "q = r @ d" "inline_chain (inlines s) r d"
    by (rule inline_set_chain)
  with inl have "inline_chain (inlines s) r (d @ [v])"
    by (simp add: inline_chain_append)
  moreover from d have "q @ [v] = r @ (d @ [v])" by simp
  ultimately show ?thesis
    unfolding in_inline_set_iff using sp by blast
qed

lemma inline_set_trans:
  assumes p: "p \<in> set (inline_set s r)" and x: "x \<in> set (inline_set s p)"
  shows "x \<in> set (inline_set s r)"
proof (cases "x = p")
  case True
  with p show ?thesis by simp
next
  case False
  with x have xs: "x \<in> set (spaces s)"
    unfolding in_inline_set_iff by blast
  from x obtain d2 where d2: "x = p @ d2" "inline_chain (inlines s) p d2"
    by (rule inline_set_chain)
  from p obtain d1 where d1: "p = r @ d1" "inline_chain (inlines s) r d1"
    by (rule inline_set_chain)
  from d1 d2 have "x = r @ (d1 @ d2)" "inline_chain (inlines s) r (d1 @ d2)"
    by (simp_all add: inline_chain_append)
  with xs show ?thesis
    unfolding in_inline_set_iff by blast
qed

lemma resolve_two:
  assumes "resolve s cur [a, v] = Inr p"
  obtains r where "resolve s cur [a] = Inr r" and "enter s r v = Inr p"
  using assms by (auto simp: resolve_def split: option.splits sum.splits)

lemma enter_Inr:
  assumes "enter s r v = Inr p"
  shows "p \<in> set (spaces s)" and "\<exists>q\<in>set (inline_set s r). p = q @ [v]"
proof -
  from assms have "found_spaces s r v = [p]"
    by (auto simp: enter_def split: if_splits list.splits)
  then have "p \<in> set (found_spaces s r v)" by simp
  then show "p \<in> set (spaces s)" and "\<exists>q\<in>set (inline_set s r). p = q @ [v]"
    by (auto simp: found_spaces_def)
qed

lemma versioned_member:
  assumes m: "member_type s r N = Some t" and p: "p \<in> set (inline_set s r)"
    and ty: "types s (p, N) = Some (kd, c)"
  shows "t = c" and "member_type s p N = Some t"
proof -
  from m have fv: "found_vars s r N = []" and fsp: "found_spaces s r N = []"
    and all: "\<forall>x\<in>set (found_types s r N). snd x = t"
    unfolding member_type_iff by blast+
  have sub: "x \<in> set (inline_set s r)" if "x \<in> set (inline_set s p)" for x
    using p that by (rule inline_set_trans)
  from p ty have "(kd, c) \<in> set (found_types s r N)"
    unfolding set_found_types by blast
  with all show "t = c" by auto
  have v: "found_vars s p N = []"
    using fv sub unfolding found_vars_empty by blast
  have sp: "found_spaces s p N = []"
    using fsp sub unfolding found_spaces_empty by blast
  have ne: "found_types s p N \<noteq> []"
    unfolding found_types_empty using inline_set_self [of p s] ty by auto
  have "\<forall>x\<in>set (found_types s p N). snd x = t"
    using all sub unfolding set_found_types by blast
  with v sp ne show "member_type s p N = Some t"
    unfolding member_type_iff by blast
qed

lemma qualified_type:
  assumes "q \<noteq> []"
  shows "type_named s cur q n = Some t \<longleftrightarrow> (\<exists>r. resolve s cur q = Inr r \<and> member_type s r n = Some t)"
  using assms by (cases q) (auto simp: type_named_def split: sum.splits)

subsection \<open>Results of concrete runs\<close>

lemma accepted_run: "\<not> isl r \<Longrightarrow> \<exists>s. r = Inr s"
  by (cases r) simp_all

lemma refused_run: "(case r of Inl e \<Rightarrow> e = d | Inr s \<Rightarrow> False) \<Longrightarrow> r = Inl d"
  by (cases r) simp_all

lemma include_unit: "process_items fs k cur m [Include f] s = include_file fs k cur f s"
  by (simp split: sum.splits)

lemma state_after_run:
  "process_items fs 4 [] ''main.cpp'' unit empty_tu = Inr s \<Longrightarrow> state_after fs unit = s"
  by (simp add: state_after_def)

lemma header_files:
  "stub_fs ''ArduinoJson.h'' = Some ArduinoJson_h"
  "nested_fs ''ArduinoJson.h'' = Some ArduinoJson_h"
  "v7_fs ''ArduinoJson.h'' = Some ArduinoJson_h"
  "demo_fs ''ArduinoJson.h'' = Some ArduinoJson_h"
  "stub_fs_plus ''ArduinoJson.h'' = Some ArduinoJson_h"
  by (simp_all add: stub_fs_def nested_fs_def v7_fs_def demo_fs_def stub_fs_plus_def)

lemma empty_once: "f \<notin> once empty_tu"
  by (simp add: empty_tu_def)




section \<open>The claims\<close>

text \<open>
  C1, as stated, fails: a translation unit that includes the header need not see each
  legacy name as the library's type. In \<open>hidden_unit ''JsonArray''\<close> the consumer has
  defined a variable \<^verbatim>\<open>JsonArray\<close> before the include. The header is accepted, the
  using-declaration brings the class name into the global namespace, where the variable
  hides it: \<^verbatim>\<open>ArduinoJson::JsonArray\<close> denotes the library's type and \<^verbatim>\<open>JsonArray\<close> denotes
  no type, so the type-identity check does not compile.
\<close>

theorem variable_hides_legacy_name:
  "\<not> isl (process_items stub_fs 4 [] ''main.cpp'' (hidden_unit ''JsonArray'') empty_tu) \<and>
   type_named (state_after stub_fs (hidden_unit ''JsonArray'')) [] [] ''JsonArray'' = None \<and>
   type_named (state_after stub_fs (hidden_unit ''JsonArray'')) [] [''ArduinoJson''] ''JsonArray'' =
     Some (class_at [''ArduinoJson'', ''V6''] (\<lambda>n. 16) ''JsonArray'')"
  by code_simp

text \<open>
  C1, amended. For each of the six legacy names \<open>N\<close>, every library header and every
  translation unit in which a first inclusion of the header is accepted, in whatever
  namespace \<open>cur\<close> the \<^verbatim>\<open>#include\<close> stands: whenever the unqualified name \<open>N\<close> denotes a type
  there, it denotes exactly the type that \<^verbatim>\<open>ArduinoJson::N\<close> denotes, so the type-identity
  check succeeds; and \<open>N\<close> does denote a type whenever, after the library header, \<open>N\<close> is
  not yet declared in \<open>cur\<close> (as a type, a variable or a namespace) and
  \<^verbatim>\<open>ArduinoJson::N\<close> is not a variable.
\<close>

theorem legacy_name_denotes_library_type:
  assumes "fs f = Some ArduinoJson_h" and "f \<notin> once s"
    and "include_file fs (Suc k) cur f s = Inr s'"
    and "N \<in> set legacy_names"
  shows "(\<forall>t. type_named s' cur [] N = Some t \<longrightarrow>
            type_named s' cur [''ArduinoJson''] N = Some t) \<and>
         (\<exists>s1 r. after_line3 fs k cur f s = Inr s1 \<and>
            resolve s1 cur [''ArduinoJson''] = Inr r \<and>
            (found_types s1 cur N = [] \<and> found_vars s1 cur N = [] \<and>
             found_spaces s1 cur N = [] \<and> found_vars s1 r N = []
             \<longrightarrow> (\<exists>t. type_named s' cur [] N = Some t)))"
proof -
  from assms(1-3) obtain s1 where s1: "after_line3 fs k cur f s = Inr s1"
    and ok: "\<forall>n\<in>set legacy_names. \<exists>b. using_line s1 cur [''ArduinoJson''] n = Inr b"
    and s': "s' = imported cur [''ArduinoJson''] legacy_names s1"
    by (rule header_included)
  from ok assms(4) obtain tb vb where u: "using_line s1 cur [''ArduinoJson''] N = Inr (tb, vb)"
    by fastforce
  have disj: "set [''ArduinoJson''] \<inter> set legacy_names = {}"
    using library_name_not_legacy by simp
  have same: "\<forall>t. type_named s' cur [] N = Some t \<longrightarrow>
            type_named s' cur [''ArduinoJson''] N = Some t"
    unfolding s' using denotes_library_type [OF assms(4) disj u] by simp
  from u obtain r where r: "resolve s1 cur [''ArduinoJson''] = Inr r"
    by (rule using_line_parts)
  have "found_types s1 cur N = [] \<and> found_vars s1 cur N = [] \<and>
        found_spaces s1 cur N = [] \<and> found_vars s1 r N = []
        \<longrightarrow> (\<exists>t. type_named s' cur [] N = Some t)"
    unfolding s' using denotes_when_not_hidden [OF assms(4) u r] by blast
  with s1 r same show ?thesis by blast
qed

theorem legacy_name_denotes_library_type_witness:
  "\<not> isl (include_file stub_fs 4 [] ''ArduinoJson.h'' empty_tu) \<and>
   type_named (state_after stub_fs [Include ''ArduinoJson.h'']) [] [] ''JsonVariant'' =
     Some (class_at [''ArduinoJson'', ''V6''] (\<lambda>n. 16) ''JsonVariant'') \<and>
   type_named (state_after stub_fs [Include ''ArduinoJson.h'']) [] [''ArduinoJson''] ''JsonVariant'' =
     Some (class_at [''ArduinoJson'', ''V6''] (\<lambda>n. 16) ''JsonVariant'')"
proof -
  let ?c = "class_at [''ArduinoJson'', ''V6''] (\<lambda>n. 16) ''JsonVariant''"
  have acc: "\<not> isl (include_file stub_fs 4 [] ''ArduinoJson.h'' empty_tu)"
    by code_simp
  then obtain s' where run: "include_file stub_fs 4 [] ''ArduinoJson.h'' empty_tu = Inr s'"
    by (auto dest: accepted_run)
  then have sa: "state_after stub_fs [Include ''ArduinoJson.h''] = s'"
    by (intro state_after_run) (simp only: include_unit)
  have "type_named (state_after stub_fs [Include ''ArduinoJson.h'']) [] [] ''JsonVariant'' = Some ?c"
    by code_simp
  then have unq: "type_named s' [] [] ''JsonVariant'' = Some ?c"
    by (simp only: sa)
  have four: "(4::nat) = Suc 3" by simp
  have N: "''JsonVariant'' \<in> set legacy_names" by (simp add: legacy_names_def)
  from legacy_name_denotes_library_type [OF header_files(1) empty_once run [unfolded four] N] unq
  have "type_named s' [] [''ArduinoJson''] ''JsonVariant'' = Some ?c"
    by blast
  with acc unq show ?thesis unfolding sa by simp
qed

text \<open>
  C2, as stated, fails: a missing library symbol is not the only way in which the
  inclusion fails. The unit \<open>clash_unit\<close> has defined a class \<^verbatim>\<open>JsonArray\<close> of its own
  before the include. The library header is accepted and \<^verbatim>\<open>ArduinoJson::N\<close> is found for
  all six names, and yet the inclusion fails, with the diagnostic of a conflicting
  declaration rather than of a missing name.
\<close>

theorem clash_fails_with_complete_library:
  "process_items stub_fs 4 [] ''main.cpp'' clash_unit empty_tu = Inl (Conflict [] ''JsonArray'') \<and>
   list_all
     (\<lambda>N. \<not> isl (find_target
                   (state_after stub_fs [ClassDef ''JsonArray'' 8 4 [], Include ''ArduinoJson.hpp''])
                   [] [''ArduinoJson''] N))
     legacy_names"
proof
  show "process_items stub_fs 4 [] ''main.cpp'' clash_unit empty_tu = Inl (Conflict [] ''JsonArray'')"
    by (rule refused_run) code_simp
  show "list_all
     (\<lambda>N. \<not> isl (find_target
                   (state_after stub_fs [ClassDef ''JsonArray'' 8 4 [], Include ''ArduinoJson.hpp''])
                   [] [''ArduinoJson''] N))
     legacy_names"
    by code_simp
qed

text \<open>
  C2, amended. Provided the include of the library header on line 3 is accepted, no
  macro is named like an identifier of lines 6 to 11, and no using-declaration clashes
  with what its name already is in the including namespace: a first inclusion of the
  header fails if and only if, for one of the six names \<open>N\<close>, the lookup of
  \<^verbatim>\<open>ArduinoJson::N\<close> fails after the library header; the failure is the diagnostic of that
  lookup for the first such name, in the order of lines 6 to 11; and a name that the
  library header leaves undeclared in the namespace \<^verbatim>\<open>ArduinoJson\<close> gets the diagnostic
  \<open>Undeclared\<close> that names it, whatever the consumer has declared under the same name.
\<close>

theorem header_fails_for_an_unusable_name:
  assumes "fs f = Some ArduinoJson_h" and "f \<notin> once s"
    and "after_line3 fs k cur f s = Inr s1"
    and "macros s1 \<inter> set header_tokens = {}"
    and "\<forall>N\<in>set legacy_names. \<not> clashes s1 cur [''ArduinoJson''] N"
  shows "((\<exists>e. include_file fs (Suc k) cur f s = Inl e) \<longleftrightarrow>
            (\<exists>N\<in>set legacy_names. isl (find_target s1 cur [''ArduinoJson''] N))) \<and>
         (\<forall>e. include_file fs (Suc k) cur f s = Inl e \<longrightarrow>
            (\<exists>N. find (\<lambda>n. isl (find_target s1 cur [''ArduinoJson''] n)) legacy_names = Some N \<and>
                 find_target s1 cur [''ArduinoJson''] N = Inl e)) \<and>
         (\<forall>r N. resolve s1 cur [''ArduinoJson''] = Inr r \<and> found_types s1 r N = [] \<and>
                found_vars s1 r N = [] \<and> found_spaces s1 r N = []
                \<longrightarrow> find_target s1 cur [''ArduinoJson''] N = Inl (Undeclared r N))"
proof -
  let ?t = "\<lambda>n. find_target s1 cur [''ArduinoJson''] n"
  let ?u = "\<lambda>n. using_line s1 cur [''ArduinoJson''] n"
  have plain: "?u n = using_effect s1 cur [''ArduinoJson''] n" if "n \<in> set legacy_names" for n
    using assms(4) that by (intro using_line_plain [where ns = legacy_names])
      (simp add: header_tokens_def)
  have isl_eq: "isl (?u n) = isl (?t n)" if "n \<in> set legacy_names" for n
    using assms(5) that by (simp add: plain no_clash_effect(1))
  have diag: "?u n = Inl (projl (?t n))" if "n \<in> set legacy_names" "isl (?t n)" for n
    using assms(5) that by (simp add: plain no_clash_effect(2))
  have F: "find (\<lambda>n. isl (?u n)) legacy_names = find (\<lambda>n. isl (?t n)) legacy_names"
    by (rule find_cong_set) (simp add: isl_eq)
  have run: "include_file fs (Suc k) cur f s =
      (case find (\<lambda>n. isl (?t n)) legacy_names of
         None \<Rightarrow> Inr (imported cur [''ArduinoJson''] legacy_names s1)
       | Some n \<Rightarrow> Inl (projl (?u n)))"
    using assms(1-3) by (simp add: first_inclusion header_run F)
  have third: "\<forall>r N. resolve s1 cur [''ArduinoJson''] = Inr r \<and> found_types s1 r N = [] \<and>
                found_vars s1 r N = [] \<and> found_spaces s1 r N = []
                \<longrightarrow> ?t N = Inl (Undeclared r N)"
    by (simp add: missing_name_diagnostic)
  show ?thesis
  proof (cases "find (\<lambda>n. isl (?t n)) legacy_names")
    case None
    then have "\<not> (\<exists>N\<in>set legacy_names. isl (?t N))"
      by (simp add: find_None_all)
    moreover from None run have "include_file fs (Suc k) cur f s =
        Inr (imported cur [''ArduinoJson''] legacy_names s1)"
      by simp
    ultimately show ?thesis using third by simp
  next
    case (Some N)
    then have N: "N \<in> set legacy_names" "isl (?t N)"
      using find_Some_in [of "\<lambda>n. isl (?t n)" legacy_names N] by simp_all
    from Some run diag [OF N] have r: "include_file fs (Suc k) cur f s = Inl (projl (?t N))"
      by simp
    from N(2) have "?t N = Inl (projl (?t N))" by simp
    with r Some N third show ?thesis by auto
  qed
qed

theorem header_fails_for_an_unusable_name_witness:
  "include_file v7_fs 3 [] ''ArduinoJson.h'' (state_after v7_fs own_class_unit) =
     Inl (Undeclared [''ArduinoJson''] ''DynamicJsonDocument'') \<and>
   type_named (state_after v7_fs own_class_unit) [] [] ''DynamicJsonDocument'' \<noteq> None"
proof -
  let ?s = "state_after v7_fs own_class_unit"
  let ?a = "after_line3 v7_fs 2 [] ''ArduinoJson.h'' ?s"
  let ?s1 = "projr ?a"
  have own: "type_named ?s [] [] ''DynamicJsonDocument'' \<noteq> None"
    by code_simp
  have notonce: "''ArduinoJson.h'' \<notin> once ?s"
    by code_simp
  have "\<not> isl ?a" by code_simp
  then have line3: "?a = Inr ?s1" by simp
  have nomacro: "macros ?s1 \<inter> set header_tokens = {}"
    by code_simp
  have "list_all (\<lambda>N. \<not> clashes ?s1 [] [''ArduinoJson''] N) legacy_names"
    by code_simp
  then have noclash: "\<forall>N\<in>set legacy_names. \<not> clashes ?s1 [] [''ArduinoJson''] N"
    by (simp only: list_all_iff)
  have first: "find (\<lambda>n. isl (find_target ?s1 [] [''ArduinoJson''] n)) legacy_names =
                 Some ''DynamicJsonDocument''"
    by code_simp
  have d: "find_target ?s1 [] [''ArduinoJson''] ''DynamicJsonDocument'' =
             Inl (Undeclared [''ArduinoJson''] ''DynamicJsonDocument'')"
    by (rule refused_run) code_simp
  have three: "(3::nat) = Suc 2" by simp
  note th = header_fails_for_an_unusable_name [OF header_files(3) notonce line3 nomacro noclash]
  from d have "\<exists>N\<in>set legacy_names. isl (find_target ?s1 [] [''ArduinoJson''] N)"
    by (auto simp: legacy_names_def)
  with th obtain e where e: "include_file v7_fs (Suc 2) [] ''ArduinoJson.h'' ?s = Inl e"
    by blast
  with th first have "find_target ?s1 [] [''ArduinoJson''] ''DynamicJsonDocument'' = Inl e"
    by auto
  with d e have "include_file v7_fs (Suc 2) [] ''ArduinoJson.h'' ?s =
      Inl (Undeclared [''ArduinoJson''] ''DynamicJsonDocument'')"
    by simp
  with own show ?thesis by (simp only: three) simp
qed




text \<open>
  C4. Inclusion of the header is idempotent, for every library header and every
  state of the translation unit: two inclusions in a row are one inclusion (when the
  first is refused, so is the pair, with the same diagnostic), and once an inclusion
  has been accepted, every further inclusion, at whatever depth of nesting above the
  limit, in whatever namespace and after whatever else has been processed, returns the
  state as it is, so that it can produce no diagnostic of a repeated declaration. The guard
  \<^verbatim>\<open>#pragma once\<close> on line 1 does this: no line ever retracts the mark it sets.
\<close>

theorem repeated_inclusion_is_skipped:
  assumes "fs f = Some ArduinoJson_h"
  shows "process_items fs k cur h [Include f, Include f] s =
           process_items fs k cur h [Include f] s \<and>
         (\<forall>s' t j c. include_file fs k cur f s = Inr s' \<and> once s' \<subseteq> once t
            \<longrightarrow> include_file fs (Suc j) c f t = Inr t)"
  using included_twice [where fs = fs and f = f, OF assms]
    included_again [where fs = fs and f = f, OF assms] by blast

theorem repeated_inclusion_is_skipped_witness:
  "\<not> isl (process_items nested_fs 4 [] ''main.cpp'' [Include ''ArduinoJson.h''] empty_tu) \<and>
   process_items nested_fs 4 [] ''main.cpp'' [Include ''ArduinoJson.h'', Include ''ArduinoJson.h'']
     empty_tu =
   process_items nested_fs 4 [] ''main.cpp'' [Include ''ArduinoJson.h''] empty_tu \<and>
   process_items nested_fs 4 [] ''main.cpp'' [Include ''ArduinoJson.h'', Include ''api.h'']
     empty_tu =
   process_items nested_fs 4 [] ''main.cpp'' [Include ''ArduinoJson.h''] empty_tu"
proof -
  note th = repeated_inclusion_is_skipped
    [where fs = nested_fs and f = "''ArduinoJson.h''", OF header_files(2)]
  have acc: "\<not> isl (process_items nested_fs 4 [] ''main.cpp'' [Include ''ArduinoJson.h''] empty_tu)"
    by code_simp
  then obtain s' where run: "include_file nested_fs 4 [] ''ArduinoJson.h'' empty_tu = Inr s'"
    by (auto dest: accepted_run simp only: include_unit)
  then have sa: "state_after nested_fs [Include ''ArduinoJson.h''] = s'"
    by (intro state_after_run) (simp only: include_unit)
  have twice: "process_items nested_fs 4 [] ''main.cpp''
                 [Include ''ArduinoJson.h'', Include ''ArduinoJson.h''] empty_tu =
               process_items nested_fs 4 [] ''main.cpp'' [Include ''ArduinoJson.h''] empty_tu"
    using th by blast
  have "''api.h'' \<notin> once (state_after nested_fs [Include ''ArduinoJson.h''])"
    by code_simp
  then have api: "''api.h'' \<notin> once s'" by (simp add: sa)
  have "include_file nested_fs (Suc 2) [] ''ArduinoJson.h'' s' = Inr s'"
    using th [where k = 4 and cur = "[]" and s = empty_tu] run by blast
  then have "process_items nested_fs 3 [] ''api.h'' [Include ''ArduinoJson.h''] s' = Inr s'"
    by (simp add: eval_nat_numeral)
  with api have "include_file nested_fs 4 [] ''api.h'' s' = Inr s'"
    by (simp add: include_file.simps nested_fs_def eval_nat_numeral del: process_items.simps)
  with run have "process_items nested_fs 4 [] ''main.cpp''
                   [Include ''ArduinoJson.h'', Include ''api.h''] empty_tu =
                 process_items nested_fs 4 [] ''main.cpp'' [Include ''ArduinoJson.h''] empty_tu"
    by simp
  with acc twice show ?thesis by blast
qed

text \<open>
  C5, as stated, fails for the same reason as C1: in \<open>hidden_unit ''JsonDocument''\<close>,
  where the consumer has defined a variable \<^verbatim>\<open>JsonDocument\<close> before the include, the
  header is accepted, the class \<^verbatim>\<open>ArduinoJson::V6::JsonDocument\<close> can be named directly,
  and the legacy name \<^verbatim>\<open>JsonDocument\<close> resolves to the variable and to no type.
\<close>

theorem variable_hides_versioned_class:
  "\<not> isl (process_items stub_fs 4 [] ''main.cpp'' (hidden_unit ''JsonDocument'') empty_tu) \<and>
   type_named (state_after stub_fs (hidden_unit ''JsonDocument'')) [] [] ''JsonDocument'' = None \<and>
   type_named (state_after stub_fs (hidden_unit ''JsonDocument'')) [] [''ArduinoJson'', ''V6'']
     ''JsonDocument'' =
     Some (class_at [''ArduinoJson'', ''V6''] (\<lambda>n. 16) ''JsonDocument'')"
  by code_simp

text \<open>
  C5, amended. After an accepted first inclusion of the header, for every library
  header that defines the legacy name \<open>N\<close> as a class \<open>c\<close> in a versioned namespace, that
  is, in an inline namespace \<open>p\<close> that \<^verbatim>\<open>ArduinoJson::v\<close> names: whenever the unqualified
  name \<open>N\<close> denotes a type, that type is the class \<open>c\<close> defined in \<open>p\<close>, and naming it
  directly as \<^verbatim>\<open>ArduinoJson::v::N\<close> denotes the same type, which therefore has the same
  size, alignment and members.
\<close>

theorem legacy_name_is_versioned_class:
  assumes "fs f = Some ArduinoJson_h" and "f \<notin> once s"
    and "include_file fs (Suc k) cur f s = Inr s'"
    and "N \<in> set legacy_names"
    and "resolve s' cur [''ArduinoJson'', v] = Inr p" and "p \<in> inlines s'"
    and "types s' (p, N) = Some (ClassName, c)" and "defined_in c = p"
  shows "\<forall>t. type_named s' cur [] N = Some t \<longrightarrow>
           t = c \<and> defined_in t = p \<and> type_named s' cur [''ArduinoJson'', v] N = Some t"
proof (intro allI impI)
  fix t assume den: "type_named s' cur [] N = Some t"
  from assms(1-3) obtain s1 where
    ok: "\<forall>n\<in>set legacy_names. \<exists>b. using_line s1 cur [''ArduinoJson''] n = Inr b"
    and s': "s' = imported cur [''ArduinoJson''] legacy_names s1"
    by (rule header_included)
  from ok assms(4) obtain tb vb where u: "using_line s1 cur [''ArduinoJson''] N = Inr (tb, vb)"
    by fastforce
  have disj: "set [''ArduinoJson''] \<inter> set legacy_names = {}"
    using library_name_not_legacy by simp
  from den have "type_named s' cur [''ArduinoJson''] N = Some t"
    unfolding s' using denotes_library_type [OF assms(4) disj u] by simp
  then obtain r where r: "resolve s' cur [''ArduinoJson''] = Inr r"
    and m: "member_type s' r N = Some t"
    by (auto simp: qualified_type)
  from assms(5) obtain r' where r': "resolve s' cur [''ArduinoJson''] = Inr r'"
    and e: "enter s' r' v = Inr p"
    by (rule resolve_two)
  from r r' have "r' = r" by simp
  with e have e: "enter s' r v = Inr p" by simp
  from enter_Inr [OF e] obtain q where q: "q \<in> set (inline_set s' r)" "p = q @ [v]"
    and sp: "p \<in> set (spaces s')"
    by blast
  from q sp assms(6) have p: "p \<in> set (inline_set s' r)"
    by (simp add: inline_set_step)
  from versioned_member [OF m p assms(7)]
  have "t = c" and "member_type s' p N = Some t" .
  with assms(5,8) show "t = c \<and> defined_in t = p \<and>
      type_named s' cur [''ArduinoJson'', v] N = Some t"
    by (simp add: qualified_type)
qed

theorem legacy_name_is_versioned_class_witness:
  "\<not> isl (include_file stub_fs 4 [] ''ArduinoJson.h'' empty_tu) \<and>
   type_named (state_after stub_fs [Include ''ArduinoJson.h'']) [] [] ''JsonObject'' =
     Some (class_at [''ArduinoJson'', ''V6''] (\<lambda>n. 16) ''JsonObject'') \<and>
   type_named (state_after stub_fs [Include ''ArduinoJson.h'']) [] [''ArduinoJson'', ''V6'']
     ''JsonObject'' =
     Some (class_at [''ArduinoJson'', ''V6''] (\<lambda>n. 16) ''JsonObject'') \<and>
   defined_in (class_at [''ArduinoJson'', ''V6''] (\<lambda>n. 16) ''JsonObject'') =
     [''ArduinoJson'', ''V6'']"
proof -
  let ?c = "class_at [''ArduinoJson'', ''V6''] (\<lambda>n. 16) ''JsonObject''"
  let ?S = "state_after stub_fs [Include ''ArduinoJson.h'']"
  have acc: "\<not> isl (include_file stub_fs 4 [] ''ArduinoJson.h'' empty_tu)"
    by code_simp
  then obtain s' where run: "include_file stub_fs 4 [] ''ArduinoJson.h'' empty_tu = Inr s'"
    by (auto dest: accepted_run)
  then have sa: "?S = s'"
    by (intro state_after_run) (simp only: include_unit)
  have four: "(4::nat) = Suc 3" by simp
  have N: "''JsonObject'' \<in> set legacy_names" by (simp add: legacy_names_def)
  have "resolve ?S [] [''ArduinoJson'', ''V6''] = Inr [''ArduinoJson'', ''V6'']"
    by code_simp
  then have a: "resolve s' [] [''ArduinoJson'', ''V6''] = Inr [''ArduinoJson'', ''V6'']"
    by (simp only: sa)
  have "[''ArduinoJson'', ''V6''] \<in> inlines ?S" by code_simp
  then have b: "[''ArduinoJson'', ''V6''] \<in> inlines s'" by (simp add: sa)
  have "types ?S ([''ArduinoJson'', ''V6''], ''JsonObject'') = Some (ClassName, ?c)"
    by code_simp
  then have c: "types s' ([''ArduinoJson'', ''V6''], ''JsonObject'') = Some (ClassName, ?c)"
    by (simp only: sa)
  have d: "defined_in ?c = [''ArduinoJson'', ''V6'']"
    by (simp add: class_at_def)
  have "type_named ?S [] [] ''JsonObject'' = Some ?c" by code_simp
  then have unq: "type_named s' [] [] ''JsonObject'' = Some ?c" by (simp only: sa)
  from legacy_name_is_versioned_class
    [OF header_files(1) empty_once run [unfolded four] N a b c d] unq
  have "type_named s' [] [''ArduinoJson'', ''V6''] ''JsonObject'' = Some ?c"
    by blast
  with acc unq d show ?thesis unfolding sa by simp
qed

text \<open>
  C6, as stated, fails: the include as a whole is not without effect on the object
  file, because the library header that line 3 includes may define data. With the
  library of \<open>demo_fs\<close>, which defines a variable \<^verbatim>\<open>ArduinoJson::build_tag\<close>, the unit that
  consists of the include alone has one definition in its object file, and the unit
  without the include has none; neither uses any of the six types.
\<close>

theorem library_object_is_added:
  "\<not> isl (include_file demo_fs 4 [] ''ArduinoJson.h'' empty_tu) \<and>
   objects (state_after demo_fs [Include ''ArduinoJson.h'']) = [([''ArduinoJson''], ''build_tag'')] \<and>
   objects (state_after demo_fs []) = []"
  by code_simp

text \<open>
  C6, amended. The lines of the header itself contribute nothing to the object file:
  after an accepted first inclusion, for every library header and every state of the
  translation unit, the definitions that put code or data into the object file are
  exactly those present after the library header that line 3 includes. (The object
  file is described by the list of these definitions only; input and output,
  allocation and initialisation are not described apart from it.)
\<close>

theorem header_lines_add_no_objects:
  assumes "fs f = Some ArduinoJson_h" and "f \<notin> once s"
    and "include_file fs (Suc k) cur f s = Inr s'"
  shows "\<exists>s1. after_line3 fs k cur f s = Inr s1 \<and> objects s' = objects s1"
proof -
  from assms obtain s1 where s1: "after_line3 fs k cur f s = Inr s1"
    and s': "s' = imported cur [''ArduinoJson''] legacy_names s1"
    by (rule header_included)
  from s' have "objects s' = objects s1" by (simp add: imported_frame)
  with s1 show ?thesis by blast
qed

theorem header_lines_add_no_objects_witness:
  "\<not> isl (include_file demo_fs 4 [] ''ArduinoJson.h'' empty_tu) \<and>
   objects (state_after demo_fs [Include ''ArduinoJson.h'']) =
     objects (projr (after_line3 demo_fs 3 [] ''ArduinoJson.h'' empty_tu)) \<and>
   objects (projr (after_line3 demo_fs 3 [] ''ArduinoJson.h'' empty_tu)) =
     [([''ArduinoJson''], ''build_tag'')]"
proof -
  have acc: "\<not> isl (include_file demo_fs 4 [] ''ArduinoJson.h'' empty_tu)"
    by code_simp
  then obtain s' where run: "include_file demo_fs 4 [] ''ArduinoJson.h'' empty_tu = Inr s'"
    by (auto dest: accepted_run)
  then have sa: "state_after demo_fs [Include ''ArduinoJson.h''] = s'"
    by (intro state_after_run) (simp only: include_unit)
  have four: "(4::nat) = Suc 3" by simp
  from header_lines_add_no_objects [OF header_files(4) empty_once run [unfolded four]]
  have "objects s' = objects (projr (after_line3 demo_fs 3 [] ''ArduinoJson.h'' empty_tu))"
    by auto
  moreover have "objects (projr (after_line3 demo_fs 3 [] ''ArduinoJson.h'' empty_tu)) =
     [([''ArduinoJson''], ''build_tag'')]"
    by code_simp
  ultimately show ?thesis using acc unfolding sa by simp
qed

text \<open>
  C7. The header depends on exactly one external collaborator. Its text contains
  exactly one include, of \<^verbatim>\<open>ArduinoJson.hpp\<close>, and each of its using-declarations names a
  member of the namespace \<^verbatim>\<open>ArduinoJson\<close>, which that header is to provide. And nothing
  else of the file system matters: two file systems on which the inclusion of
  \<^verbatim>\<open>ArduinoJson.hpp\<close> does the same give the same result for the header, in every state
  and every namespace, whatever other files they hold.
\<close>

theorem header_depends_on_library_only:
  "concat (map includes_of ArduinoJson_h) = [''ArduinoJson.hpp''] \<and>
   set (map (fst \<circ> snd) (concat (map usings_of ArduinoJson_h))) = {[''ArduinoJson'']} \<and>
   ((\<forall>s0. include_file fs k cur ''ArduinoJson.hpp'' s0 =
          include_file fs' k cur ''ArduinoJson.hpp'' s0) \<longrightarrow>
      process_items fs k cur f ArduinoJson_h s = process_items fs' k cur f ArduinoJson_h s)"
proof (intro conjI impI)
  show "concat (map includes_of ArduinoJson_h) = [''ArduinoJson.hpp'']"
    by (simp add: ArduinoJson_h_def)
  show "set (map (fst \<circ> snd) (concat (map usings_of ArduinoJson_h))) = {[''ArduinoJson'']}"
    by (simp add: ArduinoJson_h_def usings_of_def)
  assume "\<forall>s0. include_file fs k cur ''ArduinoJson.hpp'' s0 =
               include_file fs' k cur ''ArduinoJson.hpp'' s0"
  then have "after_line3 fs k cur f s = after_line3 fs' k cur f s"
    by (simp add: after_line3_eq)
  then show "process_items fs k cur f ArduinoJson_h s = process_items fs' k cur f ArduinoJson_h s"
    by (simp add: header_run)
qed

theorem header_depends_on_library_only_witness:
  "stub_fs_plus ''config.h'' = Some [Define ''USE_JSON''] \<and>
   stub_fs ''config.h'' = None \<and>
   \<not> isl (process_items stub_fs 2 [] ''ArduinoJson.h'' ArduinoJson_h empty_tu) \<and>
   process_items stub_fs 2 [] ''ArduinoJson.h'' ArduinoJson_h empty_tu =
   process_items stub_fs_plus 2 [] ''ArduinoJson.h'' ArduinoJson_h empty_tu"
proof -
  have same: "\<forall>s0. include_file stub_fs 2 [] ''ArduinoJson.hpp'' s0 =
                    include_file stub_fs_plus 2 [] ''ArduinoJson.hpp'' s0"
    by (intro allI include_fs_independent [where body = "versioned_library ''V6'' (\<lambda>n. 16)"])
      (simp_all add: stub_fs_def stub_fs_plus_def versioned_library_def library_defining_def
        library_class_def)
  from header_depends_on_library_only
    [where fs = stub_fs and fs' = stub_fs_plus and k = 2 and cur = "[]"
       and f = "''ArduinoJson.h''" and s = empty_tu] same
  have "process_items stub_fs 2 [] ''ArduinoJson.h'' ArduinoJson_h empty_tu =
        process_items stub_fs_plus 2 [] ''ArduinoJson.h'' ArduinoJson_h empty_tu"
    by blast
  moreover have "\<not> isl (process_items stub_fs 2 [] ''ArduinoJson.h'' ArduinoJson_h empty_tu)"
    by code_simp
  ultimately show ?thesis
    by (simp add: stub_fs_plus_def stub_fs_def)
qed







text \<open>
  C10. The header defines no macro: its text contains no \<^verbatim>\<open>#define\<close>, its guard is
  \<^verbatim>\<open>#pragma once\<close> on its first line, and after an accepted first inclusion, for every
  library header and every state of the translation unit, the macros defined are
  exactly those defined after the library header that line 3 includes.
\<close>

theorem header_adds_no_macros:
  assumes "fs f = Some ArduinoJson_h" and "f \<notin> once s"
    and "include_file fs (Suc k) cur f s = Inr s'"
  shows "concat (map defines_of ArduinoJson_h) = [] \<and>
         hd ArduinoJson_h = PragmaOnce \<and>
         (\<exists>s1. after_line3 fs k cur f s = Inr s1 \<and> macros s' = macros s1)"
proof -
  from assms obtain s1 where s1: "after_line3 fs k cur f s = Inr s1"
    and s': "s' = imported cur [''ArduinoJson''] legacy_names s1"
    by (rule header_included)
  from s' have "macros s' = macros s1" by (simp add: imported_frame)
  with s1 have "\<exists>s1. after_line3 fs k cur f s = Inr s1 \<and> macros s' = macros s1" by blast
  moreover have "concat (map defines_of ArduinoJson_h) = []" and "hd ArduinoJson_h = PragmaOnce"
    by (simp_all add: ArduinoJson_h_def)
  ultimately show ?thesis by blast
qed

theorem header_adds_no_macros_witness:
  "\<not> isl (include_file demo_fs 4 [] ''ArduinoJson.h'' empty_tu) \<and>
   macros (state_after demo_fs [Include ''ArduinoJson.h'']) =
     macros (projr (after_line3 demo_fs 3 [] ''ArduinoJson.h'' empty_tu)) \<and>
   macros (projr (after_line3 demo_fs 3 [] ''ArduinoJson.h'' empty_tu)) =
     {''ARDUINOJSON_HPP'', ''ARDUINOJSON_VERSION''}"
proof -
  have acc: "\<not> isl (include_file demo_fs 4 [] ''ArduinoJson.h'' empty_tu)"
    by code_simp
  then obtain s' where run: "include_file demo_fs 4 [] ''ArduinoJson.h'' empty_tu = Inr s'"
    by (auto dest: accepted_run)
  then have sa: "state_after demo_fs [Include ''ArduinoJson.h''] = s'"
    by (intro state_after_run) (simp only: include_unit)
  have four: "(4::nat) = Suc 3" by simp
  from header_adds_no_macros [OF header_files(4) empty_once run [unfolded four]]
  have "macros s' = macros (projr (after_line3 demo_fs 3 [] ''ArduinoJson.h'' empty_tu))"
    by auto
  moreover have "macros (projr (after_line3 demo_fs 3 [] ''ArduinoJson.h'' empty_tu)) =
     {''ARDUINOJSON_HPP'', ''ARDUINOJSON_VERSION''}"
    by code_simp
  ultimately show ?thesis using acc unfolding sa by simp
qed

end
